theory Spec2Isabelle
  imports Complex_Main "HOL-Library.Multiset" "HOL-Library.AList" "HOL-Library.Log_Nat"
begin

section \<open>Data model (types.ts)\<close>

text \<open>
  The engine's types, field by field. Optional fields (\<open>company?: string\<close>) are
  \<open>option\<close> values; guest and table identifiers are strings. JavaScript numbers that
  hold counts and capacities are natural numbers, numeric constraint thresholds are
  integers, and scores and weights are real numbers (the rounding of IEEE doubles is not
  modelled for scores). Record fields that would clash with each other or with HOL
  constants carry a prefix: \<open>g_\<close> for guests, \<open>c_\<close> for constraints, \<open>v_\<close> for
  violations, \<open>rc_\<close> for reason codes.
\<close>

datatype Seniority = JUNIOR | MID | SENIOR | EXECUTIVE

datatype GuestType = BUYER | SELLER | NEUTRAL | CATALYST

datatype ConstraintType =
  MUST_SIT_TOGETHER | MUST_NOT_SIT_TOGETHER | MAX_SELLERS_PER_TABLE | MIN_BUYERS_PER_TABLE

record Guest =
  g_id :: string
  g_name :: string
  company :: "string option"
  department :: "string option"
  jobTitle :: "string option"
  seniority :: "Seniority option"
  guestType :: GuestType
  tags :: "string list option"
  knownConnections :: "string list option"

record Constraint =
  c_id :: string
  c_type :: ConstraintType
  c_guestIds :: "string list"
  c_value :: "int option"
  c_priority :: "int option"

record ObjectiveWeights =
  w_novelty :: real
  w_diversity :: real
  w_balance :: real
  w_transaction :: real

record TableAssignment =
  tableId :: string
  guestIds :: "string list"

record SeatingPlan =
  tables :: "TableAssignment list"

record PlanMetrics =
  novelty :: real
  diversity :: real
  balance :: real
  transaction :: real
  weighted :: real

section \<open>Rendering numbers in template strings\<close>

text \<open>
  A template literal \<open>${n}\<close> renders an integer-valued number in decimal, with a leading
  minus sign when it is negative. That holds for magnitudes below \<open>10^21\<close>; from there
  on JavaScript prints exponent notation, which \<open>show_int\<close> does not follow: it prints
  every digit. The counts that \<open>show_nat\<close> renders are array lengths, and the capacities
  it renders are printed only when an array length exceeds them.
\<close>

definition digit_char :: "nat \<Rightarrow> char" where
  "digit_char d = ''0123456789'' ! d"

fun show_nat :: "nat \<Rightarrow> string" where
  "show_nat n = (if n < 10 then [digit_char n] else show_nat (n div 10) @ [digit_char (n mod 10)])"

declare show_nat.simps [simp del]

definition show_int :: "int \<Rightarrow> string" where
  "show_int i = (if i < 0 then CHR ''-'' # show_nat (nat (- i)) else show_nat (nat i))"

section \<open>Feasibility checker (constraints.ts, checkFeasibility)\<close>

record Feasibility =
  feasible :: bool
  reason :: "string option"


fun checkGroups :: "Constraint list \<Rightarrow> nat \<Rightarrow> Feasibility" where
  \<comment> \<open>the \<open>for (const constraint of constraints)\<close> loop, returning at the first oversized group\<close>
  "checkGroups [] seatsPerTable = \<lparr>feasible = True, reason = None\<rparr>"
| "checkGroups (c # cs) seatsPerTable =
     (if c_type c = MUST_SIT_TOGETHER \<and> length (c_guestIds c) > seatsPerTable
      then \<lparr>feasible = False,
            reason = Some (''MUST_SIT_TOGETHER constraint has '' @ show_nat (length (c_guestIds c))
                           @ '' guests but tables only have '' @ show_nat seatsPerTable @ '' seats'')\<rparr>
      else checkGroups cs seatsPerTable)"

definition checkFeasibility ::
  "Guest list \<Rightarrow> Constraint list \<Rightarrow> nat \<Rightarrow> nat \<Rightarrow> Feasibility" where
  "checkFeasibility guests constraints tableCount seatsPerTable =
     (let totalSeats = tableCount * seatsPerTable in
      if length guests > totalSeats
      then \<lparr>feasible = False,
            reason = Some (''Not enough seats: '' @ show_nat (length guests)
                           @ '' guests but only '' @ show_nat totalSeats @ '' seats'')\<rparr>
      else checkGroups constraints seatsPerTable)"

section \<open>Scoring engine (scoring.ts)\<close>

text \<open>
  \<open>guestMap\<close> is a JavaScript \<open>Map\<close> filled by \<open>set\<close> in guest order (a later guest with
  the same id replaces an earlier one) and only ever read by \<open>get\<close>: a partial function.
  A \<open>Map\<close> that the code iterates is an association list in insertion order;
  \<open>AList.update\<close> replaces the value of a present key in place and appends a new key,
  as \<open>Map.set\<close> does.
\<close>

definition guestMapOf :: "Guest list \<Rightarrow> (string \<rightharpoonup> Guest)" where
  "guestMapOf guests = fold (\<lambda>g m. m(g_id g \<mapsto> g)) guests Map.empty"

definition tableGuestsOf :: "(string \<rightharpoonup> Guest) \<Rightarrow> TableAssignment \<Rightarrow> Guest list" where
  \<comment> \<open>\<open>table.guestIds.map((id) => guestMap.get(id)).filter((g) => g !== undefined)\<close>\<close>
  "tableGuestsOf gm t = List.map_filter gm (guestIds t)"

definition truthy :: "string option \<Rightarrow> bool" where
  \<comment> \<open>JavaScript truthiness of an optional string: defined and not empty\<close>
  "truthy s \<longleftrightarrow> (case s of None \<Rightarrow> False | Some v \<Rightarrow> v \<noteq> [])"

definition truthyValues :: "string option list \<Rightarrow> string list" where
  \<comment> \<open>\<open>.filter(Boolean)\<close> on optional strings\<close>
  "truthyValues xs = List.map_filter (\<lambda>s. if truthy s then s else None) xs"

definition definedValues :: "string option list \<Rightarrow> string list" where
  \<comment> \<open>\<open>.filter((c) => c !== undefined)\<close>: the empty string stays\<close>
  "definedValues xs = List.map_filter (\<lambda>s. s) xs"

definition includesOpt :: "string list option \<Rightarrow> string \<Rightarrow> bool" where
  \<comment> \<open>\<open>xs?.includes(x)\<close>, read as a condition\<close>
  "includesOpt xs x \<longleftrightarrow> (case xs of None \<Rightarrow> False | Some l \<Rightarrow> x \<in> set l)"

definition countInto :: "'k \<Rightarrow> ('k \<times> nat) list \<Rightarrow> ('k \<times> nat) list" where
  \<comment> \<open>\<open>m.set(k, (m.get(k) || 0) + 1)\<close>\<close>
  "countInto k m = AList.update k ((case map_of m k of None \<Rightarrow> 0 | Some c \<Rightarrow> c) + 1) m"

fun pairsOf :: "'a list \<Rightarrow> ('a \<times> 'a) list" where
  \<comment> \<open>the pairs \<open>(xs[i], xs[j])\<close> with \<open>i < j\<close>, in the order of the two nested loops\<close>
  "pairsOf [] = []"
| "pairsOf (x # xs) = map (Pair x) xs @ pairsOf xs"

definition pairScore :: "Guest \<Rightarrow> Guest \<Rightarrow> real" where
  "pairScore g1 g2 =
     (let s0 = 1;
          s1 = (if truthy (company g1) \<and> truthy (company g2) \<and> company g1 = company g2
                then s0 - 0.4 else s0);
          s2 = (if truthy (department g1) \<and> truthy (department g2) \<and> department g1 = department g2
                then s1 - 0.3 else s1);
          s3 = (if includesOpt (knownConnections g1) (g_id g2) \<or> includesOpt (knownConnections g2) (g_id g1)
                then s2 - 0.3 else s2)
      in max 0 s3)"

definition calculateNoveltyScore :: "SeatingPlan \<Rightarrow> Guest list \<Rightarrow> real" where
  "calculateNoveltyScore plan guests =
     (let gm = guestMapOf guests;
          allPairs = concat (map (\<lambda>t. pairsOf (tableGuestsOf gm t)) (tables plan));
          totalScore = sum_list (map (\<lambda>(g1, g2). pairScore g1 g2) allPairs);
          totalPairs = length allPairs
      in if totalPairs > 0 then totalScore / real totalPairs else 1)"

definition tablesWithGuests :: "SeatingPlan \<Rightarrow> TableAssignment list" where
  "tablesWithGuests plan = filter (\<lambda>t. length (guestIds t) > 0) (tables plan)"

definition tableDiversity :: "Guest list \<Rightarrow> real" where
  "tableDiversity tableGuests =
     (let companies = remdups (truthyValues (map company tableGuests));
          departments = remdups (truthyValues (map department tableGuests));
          companyDiversity = real (length companies) / real (max 1 (length tableGuests));
          deptDiversity = real (length departments) / real (max 1 (length tableGuests))
      in (companyDiversity + deptDiversity) / 2)"

definition populated :: "(string \<rightharpoonup> Guest) \<Rightarrow> SeatingPlan \<Rightarrow> Guest list list" where
  \<comment> \<open>the known guests of every table that the loops do not skip with \<open>continue\<close>\<close>
  "populated gm plan = filter (\<lambda>tg. length tg \<noteq> 0) (map (tableGuestsOf gm) (tables plan))"

definition calculateDiversityScore :: "SeatingPlan \<Rightarrow> Guest list \<Rightarrow> real" where
  "calculateDiversityScore plan guests =
     (let totalScore = sum_list (map tableDiversity (populated (guestMapOf guests) plan));
          n = length (tablesWithGuests plan)
      in if n > 0 then totalScore / real n else 1)"

definition seniorityScoreOf :: "Guest list \<Rightarrow> real" where
  "seniorityScoreOf tableGuests =
     (let seniorityCount =
            fold (\<lambda>g m. case seniority g of None \<Rightarrow> m | Some s \<Rightarrow> countInto s m) tableGuests []
      in if length seniorityCount > 0
         then (let total = real (sum_list (map snd seniorityCount));
                   idealPerLevel = total / 4
               in sum_list (map (\<lambda>(s, count). 1 - \<bar>real count - idealPerLevel\<bar> / max 1 idealPerLevel)
                              seniorityCount)
                  / real (length seniorityCount))
         else 0.5)"

definition typeScoreOf :: "Guest list \<Rightarrow> real" where
  "typeScoreOf tableGuests =
     (let typeCount = fold (\<lambda>g m. countInto (guestType g) m) tableGuests []
      in if length typeCount > 1 then 1 else 0.5)"

definition tableBalance :: "Guest list \<Rightarrow> real" where
  "tableBalance tableGuests = (seniorityScoreOf tableGuests + typeScoreOf tableGuests) / 2"

definition calculateBalanceScore :: "SeatingPlan \<Rightarrow> Guest list \<Rightarrow> real" where
  "calculateBalanceScore plan guests =
     (let totalScore = sum_list (map tableBalance (populated (guestMapOf guests) plan));
          n = length (tablesWithGuests plan)
      in if n > 0 then totalScore / real n else 1)"

definition tableTransaction :: "Guest list \<Rightarrow> real" where
  "tableTransaction tableGuests =
     (let buyers = filter (\<lambda>g. guestType g = BUYER) tableGuests;
          sellers = filter (\<lambda>g. guestType g = SELLER) tableGuests;
          catalysts = filter (\<lambda>g. guestType g = CATALYST) tableGuests;
          s0 = 0;
          s1 = (if length buyers > 0 \<and> length sellers > 0 then s0 + 0.4 else s0);
          s2 = (if length catalysts > 0 \<and> (length buyers > 0 \<or> length sellers > 0)
                then s1 + 0.2 else s1);
          sellerCompanies = definedValues (map company sellers);
          s3 = (if length sellerCompanies > length (remdups sellerCompanies) then s2 - 0.3 else s2);
          s4 = (if length sellers > 0 \<and> length buyers > 0
                then s3 + 0.2 * (real (min (length buyers) (length sellers))
                                 / real (max (length buyers) (length sellers)))
                else s3);
          s5 = (if (length sellers > 0 \<and> length buyers = 0) \<or> (length buyers > 0 \<and> length sellers = 0)
                then s4 - 0.2 else s4)
      in max 0 (min 1 (0.5 + s5)))"

definition calculateTransactionScore :: "SeatingPlan \<Rightarrow> Guest list \<Rightarrow> real" where
  "calculateTransactionScore plan guests =
     (let totalScore = sum_list (map tableTransaction (populated (guestMapOf guests) plan));
          n = length (tablesWithGuests plan)
      in if n > 0 then totalScore / real n else 0.5)"

definition calculateWeightedScore :: "real \<Rightarrow> real \<Rightarrow> real \<Rightarrow> real \<Rightarrow> ObjectiveWeights \<Rightarrow> real" where
  "calculateWeightedScore n d b t weights =
     n * w_novelty weights + d * w_diversity weights + b * w_balance weights
     + t * w_transaction weights"

definition calculateAllMetrics :: "SeatingPlan \<Rightarrow> Guest list \<Rightarrow> ObjectiveWeights \<Rightarrow> PlanMetrics" where
  "calculateAllMetrics plan guests weights =
     (let n = calculateNoveltyScore plan guests;
          d = calculateDiversityScore plan guests;
          b = calculateBalanceScore plan guests;
          t = calculateTransactionScore plan guests
      in \<lparr>novelty = n, diversity = d, balance = b, transaction = t,
          weighted = calculateWeightedScore n d b t weights\<rparr>)"

section \<open>Constraint validator (constraints.ts)\<close>

record ConstraintViolation =
  v_constraintId :: string
  v_constraintType :: ConstraintType
  v_message :: string
  v_tableId :: "string option"
  v_guestIds :: "string list"

record ValidationResult =
  valid :: bool
  violations :: "ConstraintViolation list"

definition guestToTableOf :: "SeatingPlan \<Rightarrow> (string \<rightharpoonup> string)" where
  \<comment> \<open>filled table by table, guest by guest: the last table listing a guest wins\<close>
  "guestToTableOf plan =
     fold (\<lambda>t m. fold (\<lambda>g m'. m'(g \<mapsto> tableId t)) (guestIds t) m) (tables plan) Map.empty"

definition tableToGuestsOf :: "SeatingPlan \<Rightarrow> (string \<times> string list) list" where
  "tableToGuestsOf plan = fold (\<lambda>t al. AList.update (tableId t) (guestIds t) al) (tables plan) []"

definition lookupTable :: "(string \<rightharpoonup> string) \<Rightarrow> string \<Rightarrow> string option" where
  \<comment> \<open>\<open>guestToTable.get(guestId)\<close> followed by \<open>if (table)\<close>: an empty table id is falsy\<close>
  "lookupTable guestToTable guestId =
     (case guestToTable guestId of None \<Rightarrow> None | Some t \<Rightarrow> if t = [] then None else Some t)"

definition checkMustSitTogether ::
  "Constraint \<Rightarrow> (string \<rightharpoonup> string) \<Rightarrow> ConstraintViolation option" where
  "checkMustSitTogether c guestToTable =
     (let tbls = fold (\<lambda>guestId acc. case lookupTable guestToTable guestId of
                          None \<Rightarrow> acc
                        | Some t \<Rightarrow> if t \<in> set acc then acc else acc @ [t])
                      (c_guestIds c) []
      in if length tbls > 1
         then Some \<lparr>v_constraintId = c_id c, v_constraintType = MUST_SIT_TOGETHER,
                    v_message = ''Guests must sit together but are at '' @ show_nat (length tbls)
                                @ '' different tables'',
                    v_tableId = None, v_guestIds = c_guestIds c\<rparr>
         else None)"

definition groupStep ::
  "(string \<rightharpoonup> string) \<Rightarrow> string \<Rightarrow> (string \<times> string list) list \<Rightarrow> (string \<times> string list) list" where
  \<comment> \<open>the body of the first loop of \<open>checkMustNotSitTogether\<close>:
      \<open>existing = tables.get(table) || []; existing.push(guestId); tables.set(table, existing)\<close>\<close>
  "groupStep guestToTable guestId al =
     (case lookupTable guestToTable guestId of
        None \<Rightarrow> al
      | Some t \<Rightarrow> AList.update t ((case map_of al t of None \<Rightarrow> [] | Some e \<Rightarrow> e) @ [guestId]) al)"

definition groupByTable :: "string list \<Rightarrow> (string \<rightharpoonup> string) \<Rightarrow> (string \<times> string list) list" where
  \<comment> \<open>the constraint's seated guests, per table, tables in the order of their first guest\<close>
  "groupByTable ids guestToTable = fold (groupStep guestToTable) ids []"

definition checkMustNotSitTogether ::
  "Constraint \<Rightarrow> (string \<rightharpoonup> string) \<Rightarrow> ConstraintViolation option" where
  "checkMustNotSitTogether c guestToTable =
     (case List.find (\<lambda>(t, gs). length gs > 1) (groupByTable (c_guestIds c) guestToTable) of
        None \<Rightarrow> None
      | Some (t, gs) \<Rightarrow>
          Some \<lparr>v_constraintId = c_id c, v_constraintType = MUST_NOT_SIT_TOGETHER,
                v_message = ''Guests must not sit together but '' @ show_nat (length gs)
                            @ '' are at the same table'',
                v_tableId = Some t, v_guestIds = gs\<rparr>)"

definition hasType :: "(string \<rightharpoonup> Guest) \<Rightarrow> GuestType \<Rightarrow> string \<Rightarrow> bool" where
  \<comment> \<open>\<open>guestMap.get(id)?.guestType === ty\<close>\<close>
  "hasType gm ty i \<longleftrightarrow> (case gm i of None \<Rightarrow> False | Some g \<Rightarrow> guestType g = ty)"

definition checkMaxSellersPerTable ::
  "Constraint \<Rightarrow> (string \<times> string list) list \<Rightarrow> (string \<rightharpoonup> Guest) \<Rightarrow> ConstraintViolation list" where
  "checkMaxSellersPerTable c tableToGuests gm =
     (let maxSellers = (case c_value c of None \<Rightarrow> 2 | Some v \<Rightarrow> v)
      in concat (map (\<lambda>(t, gids).
           let sellers = filter (hasType gm SELLER) gids
           in if int (length sellers) > maxSellers
              then [\<lparr>v_constraintId = c_id c, v_constraintType = MAX_SELLERS_PER_TABLE,
                     v_message = ''Table has '' @ show_nat (length sellers)
                                 @ '' sellers, max allowed is '' @ show_int maxSellers,
                     v_tableId = Some t, v_guestIds = sellers\<rparr>]
              else []) tableToGuests))"

definition checkMinBuyersPerTable ::
  "Constraint \<Rightarrow> (string \<times> string list) list \<Rightarrow> (string \<rightharpoonup> Guest) \<Rightarrow> ConstraintViolation list" where
  "checkMinBuyersPerTable c tableToGuests gm =
     (let minBuyers = (case c_value c of None \<Rightarrow> 1 | Some v \<Rightarrow> v)
      in concat (map (\<lambda>(t, gids).
           if length gids = 0 then []
           else let buyers = filter (hasType gm BUYER) gids
                in if int (length buyers) < minBuyers
                   then [\<lparr>v_constraintId = c_id c, v_constraintType = MIN_BUYERS_PER_TABLE,
                          v_message = ''Table has '' @ show_nat (length buyers)
                                      @ '' buyers, minimum required is '' @ show_int minBuyers,
                          v_tableId = Some t, v_guestIds = buyers\<rparr>]
                   else []) tableToGuests))"

definition violationsOf ::
  "SeatingPlan \<Rightarrow> Guest list \<Rightarrow> Constraint \<Rightarrow> ConstraintViolation list" where
  \<comment> \<open>one turn of the \<open>switch\<close> in \<open>validateConstraints\<close>: what one constraint pushes\<close>
  "violationsOf plan guests c =
     (case c_type c of
        MUST_SIT_TOGETHER \<Rightarrow>
          (case checkMustSitTogether c (guestToTableOf plan) of None \<Rightarrow> [] | Some v \<Rightarrow> [v])
      | MUST_NOT_SIT_TOGETHER \<Rightarrow>
          (case checkMustNotSitTogether c (guestToTableOf plan) of None \<Rightarrow> [] | Some v \<Rightarrow> [v])
      | MAX_SELLERS_PER_TABLE \<Rightarrow>
          checkMaxSellersPerTable c (tableToGuestsOf plan) (guestMapOf guests)
      | MIN_BUYERS_PER_TABLE \<Rightarrow>
          checkMinBuyersPerTable c (tableToGuestsOf plan) (guestMapOf guests))"

definition validateConstraints ::
  "SeatingPlan \<Rightarrow> Constraint list \<Rightarrow> Guest list \<Rightarrow> ValidationResult" where
  "validateConstraints plan constraints guests =
     (let vs = concat (map (violationsOf plan guests) constraints)
      in \<lparr>valid = (length vs = 0), violations = vs\<rparr>)"

section \<open>Explanation generator (explanations.ts)\<close>

datatype Impact = Positive | Negative | Neutral

datatype Objective = ObjNovelty | ObjDiversity | ObjBalance | ObjTransaction

record ReasonCode =
  rc_code :: string
  rc_tableId :: string
  rc_guestIds :: "string list"
  rc_description :: string
  rc_impact :: Impact
  rc_objective :: "Objective option"

record PlanExplanations =
  perTable :: "string \<rightharpoonup> string list"
  overall :: string
  reasonCodes :: "ReasonCode list"

fun joinWith :: "string \<Rightarrow> string list \<Rightarrow> string" where
  \<comment> \<open>\<open>Array.prototype.join\<close>\<close>
  "joinWith sep [] = []"
| "joinWith sep [x] = x"
| "joinWith sep (x # y # ys) = x @ sep @ joinWith sep (y # ys)"

definition newSet :: "'a list \<Rightarrow> 'a list" where
  \<comment> \<open>\<open>new Set(xs)\<close> as the list of its elements in insertion order\<close>
  "newSet xs = fold (\<lambda>x acc. if x \<in> set acc then acc else acc @ [x]) xs []"

definition mkCode ::
  "string \<Rightarrow> TableAssignment \<Rightarrow> string list \<Rightarrow> string \<Rightarrow> Impact \<Rightarrow> Objective option \<Rightarrow> ReasonCode" where
  "mkCode code t ids explanation impact objective =
     \<lparr>rc_code = code, rc_tableId = tableId t, rc_guestIds = ids, rc_description = explanation,
      rc_impact = impact, rc_objective = objective\<rparr>"

definition companyCodes :: "TableAssignment \<Rightarrow> Guest list \<Rightarrow> ReasonCode list" where
  "companyCodes t tableGuests =
     (let companies = newSet (truthyValues (map company tableGuests))
      in if length companies > 1
         then [mkCode ''COMPANY_DIVERSITY'' t (guestIds t)
                 (''Cross-company networking: '' @ show_nat (length companies)
                  @ '' different companies represented'')
                 Positive (Some ObjDiversity)]
         else if length companies = 1 \<and> length tableGuests > 2
         then [mkCode ''SAME_COMPANY'' t (guestIds t)
                 (''Same company table: All guests from '' @ companies ! 0)
                 Negative (Some ObjNovelty)]
         else [])"

definition departmentCodes :: "TableAssignment \<Rightarrow> Guest list \<Rightarrow> ReasonCode list" where
  "departmentCodes t tableGuests =
     (let departments = newSet (truthyValues (map department tableGuests))
      in if length departments > 2
         then [mkCode ''DEPARTMENT_DIVERSITY'' t (guestIds t)
                 (''Department mix: '' @ show_nat (length departments) @ '' different departments'')
                 Positive (Some ObjDiversity)]
         else [])"

definition seniorityCodes :: "TableAssignment \<Rightarrow> Guest list \<Rightarrow> ReasonCode list" where
  "seniorityCodes t tableGuests =
     (let seniorityLevels = newSet (List.map_filter seniority tableGuests)
      in if length seniorityLevels > 2
         then [mkCode ''SENIORITY_MIX'' t (guestIds t)
                 (''Balanced seniority: '' @ show_nat (length seniorityLevels) @ '' experience levels'')
                 Positive (Some ObjBalance)]
         else [])"

definition dynamicsCodes :: "TableAssignment \<Rightarrow> Guest list \<Rightarrow> ReasonCode list" where
  \<comment> \<open>buyer-seller mix, catalysts, competing sellers\<close>
  "dynamicsCodes t tableGuests =
     (let buyers = filter (\<lambda>g. guestType g = BUYER) tableGuests;
          sellers = filter (\<lambda>g. guestType g = SELLER) tableGuests;
          catalysts = filter (\<lambda>g. guestType g = CATALYST) tableGuests;
          sellerCompanies = definedValues (map company sellers)
      in (if length buyers > 0 \<and> length sellers > 0
          then [mkCode ''BUYER_SELLER_MIX'' t (map g_id buyers @ map g_id sellers)
                  (''Business opportunity: '' @ show_nat (length buyers) @ '' buyer(s) and ''
                   @ show_nat (length sellers) @ '' seller(s)'')
                  Positive (Some ObjTransaction)]
          else [])
         @ (if length catalysts > 0
            then [mkCode ''CATALYST_PRESENT'' t (map g_id catalysts)
                    (''Conversation catalyst: '' @ joinWith '', '' (map g_name catalysts))
                    Positive (Some ObjBalance)]
            else [])
         @ (if length sellerCompanies > length (newSet sellerCompanies)
            then [mkCode ''COMPETING_SELLERS'' t (map g_id sellers)
                    ''Note: Multiple sellers from the same company''
                    Negative (Some ObjTransaction)]
            else []))"

definition groupCodes ::
  "(string \<rightharpoonup> Guest) \<Rightarrow> Constraint list \<Rightarrow> TableAssignment \<Rightarrow> ReasonCode list" where
  "groupCodes gm constraints t =
     concat (map (\<lambda>c.
       if c_type c = MUST_SIT_TOGETHER
       then (let constraintGuests = filter (\<lambda>i. i \<in> set (guestIds t)) (c_guestIds c)
             in if length constraintGuests = length (c_guestIds c)
                then [mkCode ''MUST_SIT_TOGETHER_SATISFIED'' t constraintGuests
                        (''Grouped by request: ''
                         @ joinWith '', ''
                             (filter (\<lambda>n. n \<noteq> [])
                                (List.map_filter (\<lambda>i. map_option g_name (gm i)) constraintGuests)))
                        Neutral None]
                else [])
       else []) constraints)"

definition tableCodes ::
  "(string \<rightharpoonup> Guest) \<Rightarrow> Constraint list \<Rightarrow> TableAssignment \<Rightarrow> ReasonCode list" where
  \<comment> \<open>the body of the loop over tables; every explanation string the body pushes is the
      description of the reason code it pushes next\<close>
  "tableCodes gm constraints t =
     (let tableGuests = tableGuestsOf gm t
      in if length tableGuests = 0 then []
         else companyCodes t tableGuests @ departmentCodes t tableGuests
              @ seniorityCodes t tableGuests @ dynamicsCodes t tableGuests
              @ groupCodes gm constraints t)"

definition toFixed :: "real \<Rightarrow> nat \<Rightarrow> string" where
  \<comment> \<open>\<open>Number.prototype.toFixed\<close> for magnitudes below \<open>10^21\<close>: the nearest integer to
      \<open>|x| * 10^f\<close> (the larger of two), padded and pointed. The argument is the exact
      score, not the double the code holds: where the two fall on different sides of a
      rounding boundary the printed digits differ in the last place\<close>
  "toFixed x f =
     (let n = nat \<lfloor>\<bar>x\<bar> * 10 ^ f + 1 / 2\<rfloor>;
          m = show_nat n;
          m' = (if f \<noteq> 0 \<and> length m \<le> f then replicate (f + 1 - length m) CHR ''0'' @ m else m);
          body = (if f \<noteq> 0 then take (length m' - f) m' @ ''.'' @ drop (length m' - f) m' else m')
      in if x < 0 then CHR ''-'' # body else body)"

definition generateOverallSummary ::
  "PlanMetrics \<Rightarrow> SeatingPlan \<Rightarrow> Guest list \<Rightarrow> ReasonCode list \<Rightarrow> string" where
  \<comment> \<open>the sort, the test \<open>>= 0.7\<close> and \<open>toFixed\<close> work on exact scores; a double just below
      0.7 whose exact value is 0.7 loses the "Strong performance" sentence in the code\<close>
  "generateOverallSummary metrics plan guests codes =
     (let objectives =
            sort_key (\<lambda>(n, score). - score)
              [(''new connections'', novelty metrics),
               (''cross-department mixing'', diversity metrics),
               (''balanced conversations'', balance metrics),
               (''business opportunities'', transaction metrics)];
          best = objectives ! 0;
          positiveCount = length (filter (\<lambda>r. rc_impact r = Positive) codes);
          negativeCount = length (filter (\<lambda>r. rc_impact r = Negative) codes);
          parts =
            [''Overall optimization score: '' @ toFixed (weighted metrics * 100) 1 @ ''%'']
            @ (if snd best \<ge> 0.7
               then [''Strong performance in '' @ fst best @ '' ('' @ toFixed (snd best * 100) 0 @ ''%)'']
               else [])
            @ (if positiveCount > negativeCount * 2
               then [''Well-balanced tables with good networking potential'']
               else if negativeCount > positiveCount
               then [''Some trade-offs were made to satisfy hard constraints'']
               else [])
            @ [show_nat (length guests) @ '' guests across ''
               @ show_nat (length (tablesWithGuests plan)) @ '' tables'']
      in joinWith ''. '' parts @ ''.'')"

definition generateExplanations ::
  "SeatingPlan \<Rightarrow> Guest list \<Rightarrow> PlanMetrics \<Rightarrow> Constraint list \<Rightarrow> PlanExplanations" where
  "generateExplanations plan guests metrics constraints =
     (let gm = guestMapOf guests;
          codes = concat (map (tableCodes gm constraints) (tables plan))
      in \<lparr>perTable =
            fold (\<lambda>t m. if length (tableGuestsOf gm t) = 0 then m
                         else m(tableId t \<mapsto> map rc_description (tableCodes gm constraints t)))
                 (tables plan) Map.empty,
          overall = generateOverallSummary metrics plan guests codes,
          reasonCodes = codes\<rparr>)"

section \<open>Optimizer (optimizer.ts)\<close>

subsection \<open>SeededRandom\<close>

text \<open>
  The seed is taken to be an integer, so the generator's state is an integer-valued
  double. \<open>seed * 1103515245 + 12345\<close> is
  computed in double arithmetic: each of the two operations rounds its exact integer
  result to 53 significant bits, ties to even (\<open>roundDouble\<close>). \<open>& 0x7fffffff\<close> then keeps
  the low 31 bits of the two's complement of the integer, which is \<open>mod 2^31\<close>. The
  quotient \<open>seed / 0x7fffffff\<close> and the product with \<open>i + 1\<close> in \<open>shuffle\<close> are taken
  as real numbers.
\<close>

definition roundDouble :: "int \<Rightarrow> int" where
  "roundDouble x =
     (let a = \<bar>x\<bar>
      in if a < 2 ^ 53 then x
         else (let k = nat (bitlen a - 53);
                   q = a div 2 ^ k;
                   r = a mod 2 ^ k;
                   h = 2 ^ (k - 1);
                   m = (if r > h \<or> (r = h \<and> odd q) then q + 1 else q)
               in sgn x * (m * 2 ^ k)))"

definition nextSeed :: "int \<Rightarrow> int" where
  "nextSeed s = roundDouble (roundDouble (s * 1103515245) + 12345) mod 2 ^ 31"

definition rng_next :: "int \<Rightarrow> real \<times> int" where
  \<comment> \<open>\<open>next()\<close>: the value returned and the new state\<close>
  "rng_next s = (real_of_int (nextSeed s) / 2147483647, nextSeed s)"

fun shuffleFrom :: "nat \<Rightarrow> int \<Rightarrow> 'a list \<Rightarrow> 'a list \<times> int" where
  \<comment> \<open>the loop \<open>for (let i = ...; i > 0; i--)\<close> from a given \<open>i\<close> on\<close>
  "shuffleFrom 0 s xs = (xs, s)"
| "shuffleFrom (Suc k) s xs =
     (let (r, s') = rng_next s;
          i = Suc k;
          j = nat \<lfloor>r * real (i + 1)\<rfloor>
      in shuffleFrom k s' (xs[i := xs ! j, j := xs ! i]))"

definition shuffle :: "int \<Rightarrow> 'a list \<Rightarrow> 'a list \<times> int" where
  "shuffle s xs = shuffleFrom (length xs - 1) s xs"

subsection \<open>Initial assignment\<close>

fun findIndex :: "('a \<Rightarrow> bool) \<Rightarrow> 'a list \<Rightarrow> nat option" where
  \<comment> \<open>the position of the element that \<open>Array.prototype.find\<close> returns\<close>
  "findIndex P [] = None"
| "findIndex P (x # xs) = (if P x then Some 0 else map_option Suc (findIndex P xs))"

definition pushGuest :: "nat \<Rightarrow> string \<Rightarrow> TableAssignment list \<Rightarrow> TableAssignment list" where
  \<comment> \<open>\<open>tables[i].guestIds.push(g)\<close>\<close>
  "pushGuest i g ts = ts[i := (ts ! i)\<lparr>guestIds := guestIds (ts ! i) @ [g]\<rparr>]"

definition initTables :: "nat \<Rightarrow> TableAssignment list" where
  "initTables tableCount =
     map (\<lambda>i. \<lparr>tableId = ''table_'' @ show_nat (i + 1), guestIds = []\<rparr>) [0..<tableCount]"

definition placeGroup ::
  "nat \<Rightarrow> Constraint \<Rightarrow> TableAssignment list \<times> string list \<Rightarrow> TableAssignment list \<times> string list" where
  \<comment> \<open>one must-sit-together constraint; the state is the tables and \<open>assignedGuests\<close>\<close>
  "placeGroup seatsPerTable c st =
     (let groupSize = length (c_guestIds c)
      in case findIndex (\<lambda>t. length (guestIds t) + groupSize \<le> seatsPerTable) (fst st) of
           None \<Rightarrow> st
         | Some i \<Rightarrow>
             fold (\<lambda>guestId (ts, assigned).
                     if guestId \<in> set assigned then (ts, assigned)
                     else (pushGuest i guestId ts, assigned @ [guestId]))
                  (c_guestIds c) st)"

definition mustNotSitWith :: "Constraint list \<Rightarrow> string \<Rightarrow> string list" where
  "mustNotSitWith constraints guestId =
     concat (map (\<lambda>c. filter (\<lambda>i. i \<noteq> guestId) (c_guestIds c))
               (filter (\<lambda>c. c_type c = MUST_NOT_SIT_TOGETHER \<and> guestId \<in> set (c_guestIds c))
                  constraints))"

definition hasConflict :: "Constraint list \<Rightarrow> string \<Rightarrow> TableAssignment \<Rightarrow> bool" where
  "hasConflict constraints guestId t =
     list_ex (\<lambda>i. i \<in> set (mustNotSitWith constraints guestId)) (guestIds t)"

function tryTables ::
  "Constraint list \<Rightarrow> nat \<Rightarrow> nat \<Rightarrow> string \<Rightarrow> TableAssignment list \<Rightarrow> nat \<Rightarrow> nat
   \<Rightarrow> TableAssignment list \<times> nat \<times> nat" where
  \<comment> \<open>the loop \<open>while (attempts < tableCount)\<close>; returns the tables, \<open>tableIndex\<close> and
      \<open>attempts\<close> as they are when the loop is left\<close>
  "tryTables constraints tableCount seatsPerTable guestId ts tableIndex attempts =
     (if attempts < tableCount
      then (if length (guestIds (ts ! tableIndex)) < seatsPerTable
               \<and> \<not> hasConflict constraints guestId (ts ! tableIndex)
            then (pushGuest tableIndex guestId ts, tableIndex, attempts)
            else tryTables constraints tableCount seatsPerTable guestId ts
                   ((tableIndex + 1) mod tableCount) (attempts + 1))
      else (ts, tableIndex, attempts))"
  by pat_completeness auto
termination
  by (relation "measure (\<lambda>(constraints, tableCount, seatsPerTable, guestId, ts, tableIndex, attempts).
                           tableCount - attempts)") auto

declare tryTables.simps [simp del]

definition placeGuest ::
  "Constraint list \<Rightarrow> nat \<Rightarrow> nat \<Rightarrow> Guest \<Rightarrow> TableAssignment list \<times> nat \<Rightarrow> TableAssignment list \<times> nat" where
  \<comment> \<open>the body of the loop over \<open>remainingGuests\<close>; the state is the tables and \<open>tableIndex\<close>\<close>
  "placeGuest constraints tableCount seatsPerTable guest st =
     (case tryTables constraints tableCount seatsPerTable (g_id guest) (fst st) (snd st) 0 of
        (ts, tableIndex, attempts) \<Rightarrow>
          ((if attempts = tableCount
            then (case findIndex (\<lambda>t. length (guestIds t) < seatsPerTable) ts of
                    None \<Rightarrow> ts
                  | Some i \<Rightarrow> pushGuest i (g_id guest) ts)
            else ts),
           (tableIndex + 1) mod tableCount))"

definition seatGroups :: "Constraint list \<Rightarrow> nat \<Rightarrow> nat \<Rightarrow> TableAssignment list \<times> string list" where
  \<comment> \<open>the empty tables, then the must-sit-together constraints in input order\<close>
  "seatGroups constraints tableCount seatsPerTable =
     fold (placeGroup seatsPerTable) (filter (\<lambda>c. c_type c = MUST_SIT_TOGETHER) constraints)
       (initTables tableCount, [])"

definition createInitialAssignment ::
  "Guest list \<Rightarrow> Constraint list \<Rightarrow> nat \<Rightarrow> nat \<Rightarrow> int \<Rightarrow> SeatingPlan \<times> int" where
  \<comment> \<open>returns the plan and the state in which it leaves the generator\<close>
  "createInitialAssignment guests constraints tableCount seatsPerTable rng =
     (case seatGroups constraints tableCount seatsPerTable of
        (ts0, assignedGuests) \<Rightarrow>
          (case shuffle rng (filter (\<lambda>g. g_id g \<notin> set assignedGuests) guests) of
             (remainingGuests, rng') \<Rightarrow>
               (\<lparr>tables = fst (fold (placeGuest constraints tableCount seatsPerTable)
                                   remainingGuests (ts0, 0))\<rparr>,
                rng')))"

subsection \<open>Repair pass\<close>

definition splice1 :: "nat option \<Rightarrow> 'a list \<Rightarrow> 'a list" where
  \<comment> \<open>\<open>xs.splice(i, 1)\<close> where \<open>i\<close> comes from \<open>indexOf\<close>: \<open>None\<close> is \<open>-1\<close>, and
      \<open>splice(-1, 1)\<close> removes the last element\<close>
  "splice1 i xs = (case i of None \<Rightarrow> butlast xs | Some n \<Rightarrow> take n xs @ drop (Suc n) xs)"

definition alternativeTable :: "nat \<Rightarrow> Constraint \<Rightarrow> nat \<Rightarrow> TableAssignment list \<Rightarrow> nat option" where
  \<comment> \<open>the first other table with a free seat and no guest of the constraint\<close>
  "alternativeTable seatsPerTable c ti ts =
     findIndex (\<lambda>(i, t). i \<noteq> ti \<and> length (guestIds t) < seatsPerTable
                         \<and> \<not> list_ex (\<lambda>g. g \<in> set (c_guestIds c)) (guestIds t))
       (List.enumerate 0 ts)"

function relocate ::
  "nat \<Rightarrow> Constraint \<Rightarrow> nat \<Rightarrow> string list \<Rightarrow> TableAssignment list \<Rightarrow> TableAssignment list" where
  \<comment> \<open>the loop \<open>while (conflictingGuests.length > 1)\<close> for the table at index \<open>ti\<close>\<close>
  "relocate seatsPerTable c ti conflictingGuests ts =
     (if length conflictingGuests > 1
      then (let guestToMove = last conflictingGuests;
                guestIndex = findIndex (\<lambda>g. g = guestToMove) (guestIds (ts ! ti))
            in relocate seatsPerTable c ti (butlast conflictingGuests)
                 (case alternativeTable seatsPerTable c ti ts of
                    None \<Rightarrow> ts
                  | Some a \<Rightarrow>
                      pushGuest a guestToMove
                        (ts[ti := (ts ! ti)\<lparr>guestIds := splice1 guestIndex (guestIds (ts ! ti))\<rparr>])))
      else ts)"
  by pat_completeness auto
termination
  by (relation "measure (\<lambda>(seatsPerTable, c, ti, conflictingGuests, ts). length conflictingGuests)")
     auto

declare relocate.simps [simp del]

definition repairTable :: "nat \<Rightarrow> Constraint \<Rightarrow> nat \<Rightarrow> TableAssignment list \<Rightarrow> TableAssignment list" where
  "repairTable seatsPerTable c ti ts =
     relocate seatsPerTable c ti (filter (\<lambda>i. i \<in> set (c_guestIds c)) (guestIds (ts ! ti))) ts"

definition repairAssignment ::
  "SeatingPlan \<Rightarrow> Constraint list \<Rightarrow> Guest list \<Rightarrow> nat \<Rightarrow> nat \<Rightarrow> int \<Rightarrow> SeatingPlan" where
  \<comment> \<open>\<open>guests\<close>, \<open>tableCount\<close> and \<open>rng\<close> are parameters the body never reads\<close>
  "repairAssignment plan constraints guests tableCount seatsPerTable rng =
     \<lparr>tables =
        fold (\<lambda>c ts. fold (repairTable seatsPerTable c) [0..<length ts] ts)
             (filter (\<lambda>c. c_type c = MUST_NOT_SIT_TOGETHER) constraints) (tables plan)\<rparr>"

subsection \<open>Swaps and moves\<close>

definition swapGuests :: "SeatingPlan \<Rightarrow> nat \<Rightarrow> nat \<Rightarrow> nat \<Rightarrow> nat \<Rightarrow> SeatingPlan" where
  "swapGuests plan tableIndex1 guestIndex1 tableIndex2 guestIndex2 =
     (let ts = tables plan;
          temp = guestIds (ts ! tableIndex1) ! guestIndex1;
          ts1 = ts[tableIndex1 := (ts ! tableIndex1)
                     \<lparr>guestIds := (guestIds (ts ! tableIndex1))
                                    [guestIndex1 := guestIds (ts ! tableIndex2) ! guestIndex2]\<rparr>];
          ts2 = ts1[tableIndex2 := (ts1 ! tableIndex2)
                      \<lparr>guestIds := (guestIds (ts1 ! tableIndex2))[guestIndex2 := temp]\<rparr>]
      in \<lparr>tables = ts2\<rparr>)"

definition moveGuest :: "SeatingPlan \<Rightarrow> nat \<Rightarrow> nat \<Rightarrow> nat \<Rightarrow> SeatingPlan" where
  "moveGuest plan fromTableIndex guestIndex toTableIndex =
     (let ts = tables plan;
          guest = guestIds (ts ! fromTableIndex) ! guestIndex;
          ts1 = ts[fromTableIndex := (ts ! fromTableIndex)
                     \<lparr>guestIds := splice1 (Some guestIndex) (guestIds (ts ! fromTableIndex))\<rparr>]
      in \<lparr>tables = pushGuest toTableIndex guest ts1\<rparr>)"

definition swapCandidates :: "SeatingPlan \<Rightarrow> SeatingPlan list" where
  \<comment> \<open>the plans the four nested swap loops try, in the order they try them\<close>
  "swapCandidates plan =
     (let ts = tables plan
      in [swapGuests plan t1 g1 t2 g2.
            t1 \<leftarrow> [0..<length ts], t2 \<leftarrow> [t1 + 1..<length ts],
            g1 \<leftarrow> [0..<length (guestIds (ts ! t1))], g2 \<leftarrow> [0..<length (guestIds (ts ! t2))]])"

definition moveCandidates :: "SeatingPlan \<Rightarrow> nat \<Rightarrow> SeatingPlan list" where
  \<comment> \<open>the plans the move loops try: another table, with a free seat\<close>
  "moveCandidates plan seatsPerTable =
     (let ts = tables plan
      in [moveGuest plan t1 g t2.
            t1 \<leftarrow> [0..<length ts], t2 \<leftarrow> [0..<length ts], t1 \<noteq> t2,
            \<not> length (guestIds (ts ! t2)) \<ge> seatsPerTable,
            g \<leftarrow> [0..<length (guestIds (ts ! t1))]])"

fun firstImproving ::
  "Constraint list \<Rightarrow> Guest list \<Rightarrow> ObjectiveWeights \<Rightarrow> PlanMetrics \<Rightarrow> SeatingPlan list
   \<Rightarrow> (SeatingPlan \<times> PlanMetrics) option" where
  \<comment> \<open>the loops stop at the first candidate that validates and scores strictly higher.
      \<open>newMetrics.weighted > metrics.weighted\<close> compares doubles in the code and exact
      scores here: on an exact tie the code may accept a candidate whose double is larger
      by a rounding error, and then goes on from another plan\<close>
  "firstImproving constraints guests weights metrics [] = None"
| "firstImproving constraints guests weights metrics (newPlan # rest) =
     (if valid (validateConstraints newPlan constraints guests)
         \<and> weighted (calculateAllMetrics newPlan guests weights) > weighted metrics
      then Some (newPlan, calculateAllMetrics newPlan guests weights)
      else firstImproving constraints guests weights metrics rest)"

definition improve ::
  "Constraint list \<Rightarrow> Guest list \<Rightarrow> ObjectiveWeights \<Rightarrow> nat \<Rightarrow> SeatingPlan \<Rightarrow> PlanMetrics
   \<Rightarrow> (SeatingPlan \<times> PlanMetrics) option" where
  \<comment> \<open>one turn of the \<open>while\<close> loop: swaps first, moves only when no swap improved\<close>
  "improve constraints guests weights seatsPerTable plan metrics =
     (case firstImproving constraints guests weights metrics (swapCandidates plan) of
        Some r \<Rightarrow> Some r
      | None \<Rightarrow> firstImproving constraints guests weights metrics (moveCandidates plan seatsPerTable))"

function localSearch ::
  "Constraint list \<Rightarrow> Guest list \<Rightarrow> ObjectiveWeights \<Rightarrow> nat \<Rightarrow> nat \<Rightarrow> SeatingPlan \<Rightarrow> PlanMetrics
   \<Rightarrow> nat \<Rightarrow> SeatingPlan \<times> PlanMetrics \<times> nat" where
  \<comment> \<open>\<open>while (improved && iterations < maxIterations)\<close>, entered with \<open>improved = true\<close>\<close>
  "localSearch constraints guests weights seatsPerTable maxIterations plan metrics iterations =
     (if iterations < maxIterations
      then (case improve constraints guests weights seatsPerTable plan metrics of
              None \<Rightarrow> (plan, metrics, iterations + 1)
            | Some (newPlan, newMetrics) \<Rightarrow>
                localSearch constraints guests weights seatsPerTable maxIterations
                  newPlan newMetrics (iterations + 1))
      else (plan, metrics, iterations))"
  by pat_completeness auto
termination
  by (relation "measure (\<lambda>(constraints, guests, weights, seatsPerTable, maxIterations, plan,
                            metrics, iterations). maxIterations - iterations)") auto

declare localSearch.simps [simp del]

subsection \<open>optimize\<close>

record OptimizationConfig =
  cfg_tableCount :: nat
  cfg_seatsPerTable :: nat
  cfg_maxIterations :: "nat option"
  cfg_seed :: "int option"

record OptimizationResult =
  r_plan :: SeatingPlan
  r_metrics :: PlanMetrics
  r_explanations :: PlanExplanations
  r_warnings :: "string list"
  r_feasible :: bool
  r_iterations :: nat

definition collectWarnings :: "Guest list \<Rightarrow> SeatingPlan \<Rightarrow> string list" where
  \<open>collectWarnings guests plan =
     (let assignedGuests = concat (map guestIds (tables plan))
      in map (\<lambda>g. ''Guest "'' @ g_name g @ ''" has no company specified'')
           (filter (\<lambda>g. \<not> truthy (company g)) guests)
         @ map (\<lambda>g. ''Guest "'' @ g_name g @ ''" was not assigned to any table'')
             (filter (\<lambda>g. g_id g \<notin> set assignedGuests) guests))\<close>

definition createInfeasibleResult :: "string \<Rightarrow> OptimizationResult" where
  "createInfeasibleResult why =
     \<lparr>r_plan = \<lparr>tables = []\<rparr>,
      r_metrics = \<lparr>novelty = 0, diversity = 0, balance = 0, transaction = 0, weighted = 0\<rparr>,
      r_explanations = \<lparr>perTable = Map.empty,
                        overall = ''Unable to create seating plan: '' @ why,
                        reasonCodes = []\<rparr>,
      r_warnings = [why],
      r_feasible = False,
      r_iterations = 0\<rparr>"

definition seedOf :: "OptimizationConfig \<Rightarrow> int" where
  "seedOf config = (case cfg_seed config of None \<Rightarrow> 42 | Some s \<Rightarrow> s)"

definition maxIterationsOf :: "OptimizationConfig \<Rightarrow> nat" where
  "maxIterationsOf config = (case cfg_maxIterations config of None \<Rightarrow> 1000 | Some n \<Rightarrow> n)"

definition initialPlan :: "Guest list \<Rightarrow> Constraint list \<Rightarrow> OptimizationConfig \<Rightarrow> SeatingPlan" where
  \<comment> \<open>phase 1 of \<open>optimize\<close>: the greedy assignment, repaired when it does not validate\<close>
  "initialPlan guests constraints config =
     (case createInitialAssignment guests constraints (cfg_tableCount config)
             (cfg_seatsPerTable config) (seedOf config) of
        (plan, rng) \<Rightarrow>
          if \<not> valid (validateConstraints plan constraints guests)
          then repairAssignment plan constraints guests (cfg_tableCount config)
                 (cfg_seatsPerTable config) rng
          else plan)"

definition optimize ::
  "Guest list \<Rightarrow> Constraint list \<Rightarrow> ObjectiveWeights \<Rightarrow> OptimizationConfig \<Rightarrow> OptimizationResult" where
  "optimize guests constraints weights config =
     (let feasibility = checkFeasibility guests constraints (cfg_tableCount config)
                          (cfg_seatsPerTable config)
      in if \<not> feasible feasibility
         then createInfeasibleResult
                (case reason feasibility of
                   None \<Rightarrow> ''Infeasible constraints''
                 | Some r \<Rightarrow> if r = [] then ''Infeasible constraints'' else r)
         else (let plan0 = initialPlan guests constraints config
               in case localSearch constraints guests weights (cfg_seatsPerTable config)
                         (maxIterationsOf config) plan0
                         (calculateAllMetrics plan0 guests weights) 0 of
                    (plan, metrics, iterations) \<Rightarrow>
                      \<lparr>r_plan = plan,
                       r_metrics = metrics,
                       r_explanations = generateExplanations plan guests metrics constraints,
                       r_warnings = collectWarnings guests plan,
                       r_feasible = valid (validateConstraints plan constraints guests),
                       r_iterations = iterations\<rparr>))"

section \<open>Vocabulary of the plan invariants\<close>

definition seatedIds :: "TableAssignment list \<Rightarrow> string list" where
  \<comment> \<open>every guest id of every table, table by table\<close>
  "seatedIds ts = concat (map guestIds ts)"

definition withinCapacity :: "nat \<Rightarrow> TableAssignment list \<Rightarrow> bool" where
  "withinCapacity seatsPerTable ts \<longleftrightarrow> list_all (\<lambda>t. length (guestIds t) \<le> seatsPerTable) ts"

definition acceptedStep ::
  "Constraint list \<Rightarrow> Guest list \<Rightarrow> ObjectiveWeights \<Rightarrow> nat \<Rightarrow> SeatingPlan \<Rightarrow> SeatingPlan \<Rightarrow> bool" where
  \<comment> \<open>what the local search may accept: a swap or a move the loops propose, that validates
      and has a strictly higher weighted score\<close>
  "acceptedStep constraints guests weights seatsPerTable plan newPlan \<longleftrightarrow>
     newPlan \<in> set (swapCandidates plan) \<union> set (moveCandidates plan seatsPerTable)
     \<and> valid (validateConstraints newPlan constraints guests)
     \<and> weighted (calculateAllMetrics newPlan guests weights)
         > weighted (calculateAllMetrics plan guests weights)"

section \<open>Example inputs\<close>

definition exGuest :: "string \<Rightarrow> GuestType \<Rightarrow> Seniority option \<Rightarrow> string option \<Rightarrow> Guest" where
  "exGuest i ty sen co =
     \<lparr>g_id = i, g_name = i, company = co, department = None, jobTitle = None,
      seniority = sen, guestType = ty, tags = None, knownConnections = None\<rparr>"

definition exConstraint :: "string \<Rightarrow> ConstraintType \<Rightarrow> string list \<Rightarrow> Constraint" where
  "exConstraint i ty ids =
     \<lparr>c_id = i, c_type = ty, c_guestIds = ids, c_value = None, c_priority = None\<rparr>"

definition exTable :: "string \<Rightarrow> string list \<Rightarrow> TableAssignment" where
  "exTable t ids = \<lparr>tableId = t, guestIds = ids\<rparr>"

definition threeJuniors :: "Guest list" where
  "threeJuniors =
     [exGuest ''a'' NEUTRAL (Some JUNIOR) None, exGuest ''b'' NEUTRAL (Some JUNIOR) None,
      exGuest ''c'' NEUTRAL (Some JUNIOR) None]"

definition equalWeights :: ObjectiveWeights where
  "equalWeights = \<lparr>w_novelty = 1 / 4, w_diversity = 1 / 4, w_balance = 1 / 4, w_transaction = 1 / 4\<rparr>"

definition exConfig :: "nat \<Rightarrow> nat \<Rightarrow> OptimizationConfig" where
  "exConfig tableCount seatsPerTable =
     \<lparr>cfg_tableCount = tableCount, cfg_seatsPerTable = seatsPerTable,
      cfg_maxIterations = None, cfg_seed = None\<rparr>"

definition threeAndOne :: "Guest list" where
  \<comment> \<open>three guests of company A and one of company B\<close>
  "threeAndOne =
     [exGuest ''a'' NEUTRAL None (Some ''A''), exGuest ''b'' NEUTRAL None (Some ''A''),
      exGuest ''c'' NEUTRAL None (Some ''A''), exGuest ''d'' NEUTRAL None (Some ''B'')]"

definition zeroMetrics :: PlanMetrics where
  "zeroMetrics = \<lparr>novelty = 0, diversity = 0, balance = 0, transaction = 0, weighted = 0\<rparr>"

definition apartAB :: Constraint where
  "apartAB = exConstraint ''k'' MUST_NOT_SIT_TOGETHER [''a'', ''b'']"

definition loneGuest :: "Guest list" where
  "loneGuest = [exGuest ''a'' NEUTRAL None None]"

definition strangerGroup :: "Constraint list" where
  \<comment> \<open>a must-sit-together group naming an id that no supplied guest has\<close>
  "strangerGroup = [exConstraint ''k'' MUST_SIT_TOGETHER [''x'']]"

definition buyersAndSellers :: "Guest list" where
  "buyersAndSellers =
     [exGuest ''b1'' BUYER None (Some ''A''), exGuest ''b2'' BUYER None (Some ''B''),
      exGuest ''s1'' SELLER None (Some ''C''), exGuest ''s2'' SELLER None (Some ''D'')]"

definition buyerAndSeller :: "Guest list" where
  "buyerAndSeller = [exGuest ''a'' BUYER None None, exGuest ''b'' SELLER None None]"

definition apartPlan :: SeatingPlan where
  "apartPlan = \<lparr>tables = [exTable ''table_1'' [''a''], exTable ''table_2'' [''b'']]\<rparr>"

definition togetherPlan :: SeatingPlan where
  "togetherPlan = \<lparr>tables = [exTable ''table_1'' [], exTable ''table_2'' [''b'', ''a'']]\<rparr>"

section \<open>Properties of the feasibility checker\<close>





section \<open>Properties of the scoring engine\<close>

text \<open>
  C1. The four scores are meant to lie in the closed interval from 0 to 1
  (\<open>PlanMetrics\<close> documents each as a 0-1 score). The balance score does not: a table of
  three guests who are all JUNIOR and all NEUTRAL has one seniority level with count 3
  against an ideal share of 3/4, so its seniority term is \<open>1 - 2.25 = -1.25\<close>, its type
  term is 0.5, and the balance score of the plan is \<open>(-1.25 + 0.5) / 2 = -0.375\<close>.
  The transaction scorer clamps its per-table value into the interval; the balance
  scorer has no such clamp.
\<close>

theorem calculateBalanceScore_negative:
  "calculateBalanceScore \<lparr>tables = [exTable ''table_1'' [''a'', ''b'', ''c'']]\<rparr> threeJuniors = - 3 / 8"
  by (simp add: calculateBalanceScore_def populated_def tableGuestsOf_def guestMapOf_def
      threeJuniors_def exGuest_def exTable_def tablesWithGuests_def tableBalance_def
      seniorityScoreOf_def typeScoreOf_def countInto_def List.map_filter_def)

text \<open>
  The rest of the contract holds: novelty, diversity and transaction lie between 0 and 1
  for every plan and guest list, and the balance score never exceeds 1.
\<close>

lemma mean_range:
  fixes xs :: "real list"
  assumes "\<forall>x\<in>set xs. 0 \<le> x \<and> x \<le> 1" and "length xs \<le> n" and "0 < n"
  shows "0 \<le> sum_list xs / real n \<and> sum_list xs / real n \<le> 1"
proof -
  from assms(1) have "0 \<le> sum_list xs \<and> sum_list xs \<le> real (length xs)"
    by (induction xs) auto
  with assms(2,3) show ?thesis by (simp add: divide_le_eq)
qed

lemma mean_upper:
  fixes xs :: "real list"
  assumes "\<forall>x\<in>set xs. x \<le> 1" and "length xs \<le> n" and "0 < n"
  shows "sum_list xs / real n \<le> 1"
proof -
  from assms(1) have "sum_list xs \<le> real (length xs)"
    by (induction xs) auto
  with assms(2,3) show ?thesis by (simp add: divide_le_eq)
qed

lemma populated_le: "length (populated gm plan) \<le> length (tablesWithGuests plan)"
proof -
  have "length (filter (\<lambda>tg. length tg \<noteq> 0) (map (tableGuestsOf gm) ts))
        \<le> length (filter (\<lambda>t. length (guestIds t) > 0) ts)" for ts
    by (induction ts) (auto simp: tableGuestsOf_def List.map_filter_def)
  then show ?thesis by (simp add: populated_def tablesWithGuests_def)
qed

lemma populated_nonempty: "tg \<in> set (populated gm plan) \<Longrightarrow> tg \<noteq> []"
  by (auto simp: populated_def)

lemma pairScore_range: "0 \<le> pairScore g1 g2 \<and> pairScore g1 g2 \<le> 1"
  by (simp add: pairScore_def Let_def)

lemma calculateNoveltyScore_range:
  "0 \<le> calculateNoveltyScore plan guests \<and> calculateNoveltyScore plan guests \<le> 1"
proof -
  let ?ps = "concat (map (\<lambda>t. pairsOf (tableGuestsOf (guestMapOf guests) t)) (tables plan))"
  let ?xs = "map (\<lambda>(g1, g2). pairScore g1 g2) ?ps"
  show ?thesis
  proof (cases "length ?ps > 0")
    case False
    then show ?thesis by (simp add: calculateNoveltyScore_def Let_def)
  next
    case True
    have "\<forall>x\<in>set ?xs. 0 \<le> x \<and> x \<le> 1"
      using pairScore_range by (auto simp del: set_concat)
    from mean_range [OF this, of "length ?ps"] True
    show ?thesis by (simp add: calculateNoveltyScore_def Let_def)
  qed
qed

lemma length_truthyValues_le: "length (truthyValues xs) \<le> length xs"
  by (simp add: truthyValues_def List.map_filter_def)

lemma tableDiversity_range:
  assumes "tg \<noteq> []"
  shows "0 \<le> tableDiversity tg \<and> tableDiversity tg \<le> 1"
proof -
  have a: "length (remdups (truthyValues (map company tg))) \<le> length tg"
    using length_remdups_leq [of "truthyValues (map company tg)"]
      length_truthyValues_le [of "map company tg"] by (simp del: length_remdups_leq)
  have b: "length (remdups (truthyValues (map department tg))) \<le> length tg"
    using length_remdups_leq [of "truthyValues (map department tg)"]
      length_truthyValues_le [of "map department tg"] by (simp del: length_remdups_leq)
  from assms have "0 < length tg" by simp
  with a b show ?thesis
    by (simp add: tableDiversity_def Let_def max_def divide_le_eq add_divide_distrib [symmetric])
qed

lemma calculateDiversityScore_range:
  "0 \<le> calculateDiversityScore plan guests \<and> calculateDiversityScore plan guests \<le> 1"
proof (cases "length (tablesWithGuests plan) > 0")
  case False
  then show ?thesis by (simp add: calculateDiversityScore_def Let_def)
next
  case True
  have "\<forall>x\<in>set (map tableDiversity (populated (guestMapOf guests) plan)). 0 \<le> x \<and> x \<le> 1"
    using tableDiversity_range populated_nonempty by auto
  from mean_range [OF this _ True] populated_le [of "guestMapOf guests" plan] True
  show ?thesis by (simp add: calculateDiversityScore_def Let_def)
qed

lemma tableTransaction_range: "0 \<le> tableTransaction tg \<and> tableTransaction tg \<le> 1"
  unfolding tableTransaction_def Let_def by (simp add: max_def min_def)

lemma calculateTransactionScore_range:
  "0 \<le> calculateTransactionScore plan guests \<and> calculateTransactionScore plan guests \<le> 1"
proof (cases "length (tablesWithGuests plan) > 0")
  case False
  then show ?thesis by (simp add: calculateTransactionScore_def Let_def)
next
  case True
  have "\<forall>x\<in>set (map tableTransaction (populated (guestMapOf guests) plan)). 0 \<le> x \<and> x \<le> 1"
    using tableTransaction_range by auto
  from mean_range [OF this _ True] populated_le [of "guestMapOf guests" plan] True
  show ?thesis by (simp add: calculateTransactionScore_def Let_def)
qed

lemma seniorityScoreOf_upper: "seniorityScoreOf tg \<le> 1"
proof -
  let ?m = "fold (\<lambda>g m. case seniority g of None \<Rightarrow> m | Some s \<Rightarrow> countInto s m) tg []"
  let ?ideal = "real (sum_list (map snd ?m)) / 4"
  let ?xs = "map (\<lambda>(s, count). 1 - \<bar>real count - ?ideal\<bar> / max 1 ?ideal) ?m"
  show ?thesis
  proof (cases "length ?m > 0")
    case False
    then show ?thesis by (simp add: seniorityScoreOf_def Let_def)
  next
    case True
    have "\<forall>x\<in>set ?xs. x \<le> 1" by (auto simp: divide_nonneg_pos)
    from mean_upper [OF this, of "length ?m"] True
    show ?thesis by (simp add: seniorityScoreOf_def Let_def)
  qed
qed

lemma tableBalance_upper: "tableBalance tg \<le> 1"
  using seniorityScoreOf_upper [of tg] by (simp add: tableBalance_def typeScoreOf_def Let_def)

lemma calculateBalanceScore_upper: "calculateBalanceScore plan guests \<le> 1"
proof (cases "length (tablesWithGuests plan) > 0")
  case False
  then show ?thesis by (simp add: calculateBalanceScore_def Let_def)
next
  case True
  have "\<forall>x\<in>set (map tableBalance (populated (guestMapOf guests) plan)). x \<le> 1"
    using tableBalance_upper by auto
  from mean_upper [OF this _ True] populated_le [of "guestMapOf guests" plan] True
  show ?thesis by (simp add: calculateBalanceScore_def Let_def)
qed

section \<open>The infeasible result\<close>

lemma checkGroups_reason:
  "\<not> feasible (checkGroups cs s) \<Longrightarrow> \<exists>r. reason (checkGroups cs s) = Some r \<and> r \<noteq> []"
  by (induction cs) (auto split: if_splits)

lemma checkFeasibility_reason:
  "\<not> feasible (checkFeasibility guests constraints tc s) \<Longrightarrow>
   \<exists>r. reason (checkFeasibility guests constraints tc s) = Some r \<and> r \<noteq> []"
  using checkGroups_reason by (auto simp: checkFeasibility_def Let_def)

text \<open>
  C8. When \<open>checkFeasibility\<close> reports infeasible, \<open>optimize\<close> returns the result of
  \<open>createInfeasibleResult\<close> at once: a plan with no tables, the five metrics all zero,
  the reason as the only warning, \<open>feasible = false\<close> and zero iterations. The reason is
  always present and never empty, so the fallback text of \<open>reason || "..."\<close> is never
  used. The embedding of this branch is a total function that calls neither the
  assignment builder nor the search: it returns, and does not throw.
\<close>

theorem optimize_infeasible:
  assumes "\<not> feasible (checkFeasibility guests constraints (cfg_tableCount config) (cfg_seatsPerTable config))"
  shows "reason (checkFeasibility guests constraints (cfg_tableCount config) (cfg_seatsPerTable config)) \<noteq> None
    \<and> optimize guests constraints weights config =
      \<lparr>r_plan = \<lparr>tables = []\<rparr>,
       r_metrics = \<lparr>novelty = 0, diversity = 0, balance = 0, transaction = 0, weighted = 0\<rparr>,
       r_explanations =
         \<lparr>perTable = Map.empty,
          overall = ''Unable to create seating plan: ''
                    @ the (reason (checkFeasibility guests constraints (cfg_tableCount config)
                                     (cfg_seatsPerTable config))),
          reasonCodes = []\<rparr>,
       r_warnings = [the (reason (checkFeasibility guests constraints (cfg_tableCount config)
                                     (cfg_seatsPerTable config)))],
       r_feasible = False,
       r_iterations = 0\<rparr>"
proof -
  from checkFeasibility_reason [OF assms] obtain r where
    r: "reason (checkFeasibility guests constraints (cfg_tableCount config) (cfg_seatsPerTable config)) = Some r"
      "r \<noteq> []" by blast
  with assms show ?thesis
    by (simp add: optimize_def Let_def createInfeasibleResult_def)
qed

theorem optimize_infeasible_witness:
  "\<not> feasible (checkFeasibility threeJuniors [] 1 2)
   \<and> r_warnings (optimize threeJuniors [] equalWeights (exConfig 1 2)) = [''Not enough seats: 3 guests but only 2 seats'']
   \<and> tables (r_plan (optimize threeJuniors [] equalWeights (exConfig 1 2))) = []
   \<and> \<not> r_feasible (optimize threeJuniors [] equalWeights (exConfig 1 2))
   \<and> r_iterations (optimize threeJuniors [] equalWeights (exConfig 1 2)) = 0"
proof -
  have h: "\<not> feasible (checkFeasibility threeJuniors [] (cfg_tableCount (exConfig 1 2)) (cfg_seatsPerTable (exConfig 1 2)))"
    by (simp add: checkFeasibility_def threeJuniors_def exConfig_def)
  have r: "reason (checkFeasibility threeJuniors [] (cfg_tableCount (exConfig 1 2)) (cfg_seatsPerTable (exConfig 1 2)))
         = Some ''Not enough seats: 3 guests but only 2 seats''"
    by (simp add: checkFeasibility_def threeJuniors_def exConfig_def show_nat.simps digit_char_def)
  from optimize_infeasible [OF h, of equalWeights] r h show ?thesis
    by (simp add: exConfig_def)
qed

section \<open>Properties of the explanation generator\<close>

lemma newSet_fold:
  "distinct acc \<Longrightarrow>
   distinct (fold (\<lambda>x acc. if x \<in> set acc then acc else acc @ [x]) xs acc)
   \<and> set (fold (\<lambda>x acc. if x \<in> set acc then acc else acc @ [x]) xs acc) = set acc \<union> set xs"
  by (induction xs arbitrary: acc) auto

lemma distinct_newSet: "distinct (newSet xs)"
  using newSet_fold [of "[]" xs] by (simp add: newSet_def)

lemma set_newSet: "set (newSet xs) = set xs"
  using newSet_fold [of "[]" xs] by (simp add: newSet_def)

lemma length_newSet: "length (newSet xs) = card (set xs)"
  using distinct_card [OF distinct_newSet, of xs] by (simp add: set_newSet)

lemma set_truthyValues: "set (truthyValues xs) = {v. Some v \<in> set xs \<and> v \<noteq> []}"
  by (induction xs) (auto simp: truthyValues_def List.map_filter_def truthy_def split: option.splits)

text \<open>
  C10, as stated, fails: at a table with three guests of company A and one guest of
  company B the generator emits \<open>COMPANY_DIVERSITY\<close> and no \<open>SAME_COMPANY\<close> code,
  because the \<open>SAME_COMPANY\<close> branch is the \<open>else\<close> of the test for more than one
  company.
\<close>

theorem same_company_missing:
  "map rc_code (reasonCodes (generateExplanations
       \<lparr>tables = [exTable ''table_1'' [''a'', ''b'', ''c'', ''d'']]\<rparr> threeAndOne zeroMetrics []))
     = [''COMPANY_DIVERSITY'']
   \<and> length (filter (\<lambda>g. company g = Some ''A'')
        (tableGuestsOf (guestMapOf threeAndOne) (exTable ''table_1'' [''a'', ''b'', ''c'', ''d'']))) = 3"
  by (simp add: generateExplanations_def tableCodes_def companyCodes_def departmentCodes_def
      seniorityCodes_def dynamicsCodes_def groupCodes_def tableGuestsOf_def guestMapOf_def
      threeAndOne_def exGuest_def exTable_def List.map_filter_def newSet_def truthyValues_def
      definedValues_def truthy_def mkCode_def Let_def)

text \<open>
  The reason codes of a plan are those of its tables, in table order. For a table with at
  least one known guest the company code comes first; no other part of the loop body
  emits \<open>SAME_COMPANY\<close> or \<open>COMPANY_DIVERSITY\<close>, and every code carries the id of
  its table.
\<close>

lemma tableCodes_tableId:
  "rc \<in> set (tableCodes gm cs t) \<Longrightarrow> rc_tableId rc = tableId t"
  by (auto simp: tableCodes_def companyCodes_def departmentCodes_def seniorityCodes_def
      dynamicsCodes_def groupCodes_def mkCode_def Let_def split: if_splits)

lemma other_codes:
  "rc \<in> set (departmentCodes t tg @ seniorityCodes t tg @ dynamicsCodes t tg @ groupCodes gm cs t)
   \<Longrightarrow> rc_code rc \<noteq> ''SAME_COMPANY'' \<and> rc_code rc \<noteq> ''COMPANY_DIVERSITY''"
  by (auto simp: departmentCodes_def seniorityCodes_def
      dynamicsCodes_def groupCodes_def mkCode_def Let_def split: if_splits)

lemma set_reasonCodes:
  "set (reasonCodes (generateExplanations plan guests metrics constraints))
   = (\<Union>t \<in> set (tables plan). set (tableCodes (guestMapOf guests) constraints t))"
  by (simp add: generateExplanations_def Let_def)



lemma companies_single:
  assumes g: "g \<in> set tg" "company g = Some c" "c \<noteq> []"
    and only: "\<forall>g \<in> set tg. truthy (company g) \<longrightarrow> company g = Some c"
  shows "newSet (truthyValues (map company tg)) = [c]"
proof -
  let ?xs = "newSet (truthyValues (map company tg))"
  have "set (truthyValues (map company tg)) = {c}"
  proof
    show "set (truthyValues (map company tg)) \<subseteq> {c}"
    proof
      fix v assume "v \<in> set (truthyValues (map company tg))"
      then obtain g' where g': "g' \<in> set tg" "company g' = Some v" "v \<noteq> []"
        by (auto simp: set_truthyValues)
      with only have "company g' = Some c" by (auto simp: truthy_def)
      with g' show "v \<in> {c}" by simp
    qed
    show "{c} \<subseteq> set (truthyValues (map company tg))"
      using g by (force simp: set_truthyValues)
  qed
  then have s: "set ?xs = {c}"
    by (simp add: set_newSet)
  then have "length ?xs = 1"
    using distinct_card [OF distinct_newSet, of "truthyValues (map company tg)"] by simp
  then obtain x where x: "?xs = [x]"
    by (cases ?xs) auto
  with s show ?thesis by simp
qed

lemma companies_several:
  assumes g: "g \<in> set tg" "company g = Some c" "c \<noteq> []"
    and other: "g' \<in> set tg" "truthy (company g')" "company g' \<noteq> Some c"
  shows "1 < length (newSet (truthyValues (map company tg)))"
proof -
  from other obtain c' where c': "company g' = Some c'" "c' \<noteq> []" "c' \<noteq> c"
    by (cases "company g'") (auto simp: truthy_def)
  with g other have "{c, c'} \<subseteq> set (truthyValues (map company tg))"
    by (force simp: set_truthyValues)
  then have "card {c, c'} \<le> card (set (truthyValues (map company tg)))"
    by (intro card_mono) auto
  with c' show ?thesis by (simp add: length_newSet)
qed

lemma companyCodes_single:
  assumes "newSet (truthyValues (map company tg)) = [c]" "2 < length tg"
  shows "companyCodes t tg =
           [mkCode ''SAME_COMPANY'' t (guestIds t) (''Same company table: All guests from '' @ c)
              Negative (Some ObjNovelty)]"
  using assms by (simp add: companyCodes_def Let_def)

lemma companyCodes_several:
  assumes "1 < length (newSet (truthyValues (map company tg)))"
  shows "companyCodes t tg =
           [mkCode ''COMPANY_DIVERSITY'' t (guestIds t)
              (''Cross-company networking: '' @ show_nat (card (set (truthyValues (map company tg))))
               @ '' different companies represented'')
              Positive (Some ObjDiversity)]"
  using assms by (simp add: companyCodes_def Let_def length_newSet)

lemma tableCodes_company:
  assumes "tableGuestsOf gm t \<noteq> []"
  shows "tableCodes gm cs t =
           companyCodes t (tableGuestsOf gm t)
           @ (departmentCodes t (tableGuestsOf gm t) @ seniorityCodes t (tableGuestsOf gm t)
              @ dynamicsCodes t (tableGuestsOf gm t) @ groupCodes gm cs t)"
  using assms by (simp add: tableCodes_def Let_def)

text \<open>
  C10, amended. Take a table of a plan at which at least three known guests share one
  (non-empty) company. When no guest at the table has another company, the generator
  emits a \<open>SAME_COMPANY\<close> reason code for that table, with negative impact, naming the
  company, and no \<open>COMPANY_DIVERSITY\<close> code for it. When some guest at the table has
  another company, it emits instead a \<open>COMPANY_DIVERSITY\<close> code, with positive impact
  and the number of companies at the table, and no \<open>SAME_COMPANY\<close> code for it. "For
  that table" is meant of the codes the loop body pushes for the table, and, when the
  table ids of the plan are distinct, of the codes of the whole plan that carry its id.
\<close>

theorem same_company_emitted:
  assumes t: "t \<in> set (tables plan)"
    and three: "3 \<le> length (filter (\<lambda>g. company g = Some c) (tableGuestsOf (guestMapOf guests) t))"
    and c: "c \<noteq> []"
  shows
    "((\<forall>g \<in> set (tableGuestsOf (guestMapOf guests) t). truthy (company g) \<longrightarrow> company g = Some c) \<longrightarrow>
        (\<exists>rc \<in> set (reasonCodes (generateExplanations plan guests metrics constraints)).
           rc_code rc = ''SAME_COMPANY'' \<and> rc_tableId rc = tableId t \<and> rc_impact rc = Negative
           \<and> rc_guestIds rc = guestIds t
           \<and> rc_description rc = ''Same company table: All guests from '' @ c)
        \<and> (\<forall>rc \<in> set (tableCodes (guestMapOf guests) constraints t).
              rc_code rc \<noteq> ''COMPANY_DIVERSITY'')
        \<and> (distinct (map tableId (tables plan)) \<longrightarrow>
            (\<forall>rc \<in> set (reasonCodes (generateExplanations plan guests metrics constraints)).
               rc_tableId rc = tableId t \<longrightarrow> rc_code rc \<noteq> ''COMPANY_DIVERSITY'')))
     \<and> ((\<exists>g \<in> set (tableGuestsOf (guestMapOf guests) t). truthy (company g) \<and> company g \<noteq> Some c) \<longrightarrow>
        (\<exists>rc \<in> set (reasonCodes (generateExplanations plan guests metrics constraints)).
           rc_code rc = ''COMPANY_DIVERSITY'' \<and> rc_tableId rc = tableId t \<and> rc_impact rc = Positive
           \<and> rc_guestIds rc = guestIds t
           \<and> rc_description rc =
               ''Cross-company networking: ''
               @ show_nat (card (set (truthyValues (map company (tableGuestsOf (guestMapOf guests) t)))))
               @ '' different companies represented'')
        \<and> (\<forall>rc \<in> set (tableCodes (guestMapOf guests) constraints t).
              rc_code rc \<noteq> ''SAME_COMPANY'')
        \<and> (distinct (map tableId (tables plan)) \<longrightarrow>
            (\<forall>rc \<in> set (reasonCodes (generateExplanations plan guests metrics constraints)).
               rc_tableId rc = tableId t \<longrightarrow> rc_code rc \<noteq> ''SAME_COMPANY'')))"
  (is "(?single \<longrightarrow> ?A1 \<and> ?A2 \<and> ?A3) \<and> (?other \<longrightarrow> ?B1 \<and> ?B2 \<and> ?B3)")
proof -
  let ?gm = "guestMapOf guests"
  let ?tg = "tableGuestsOf ?gm t"
  let ?E = "generateExplanations plan guests metrics constraints"
  let ?rest = "departmentCodes t ?tg @ seniorityCodes t ?tg @ dynamicsCodes t ?tg
               @ groupCodes ?gm constraints t"
  have len: "3 \<le> length ?tg"
    using three length_filter_le [of "\<lambda>g. company g = Some c" ?tg] by linarith
  then have ne: "?tg \<noteq> []" by auto
  from three have "filter (\<lambda>g. company g = Some c) ?tg \<noteq> []" by auto
  then obtain g where g: "g \<in> set ?tg" "company g = Some c"
    by (metis (mono_tags, lifting) filter_False)
  have tc: "tableCodes ?gm constraints t = companyCodes t ?tg @ ?rest"
    using ne by (rule tableCodes_company)
  have sub: "rc \<in> set (reasonCodes ?E)" if "rc \<in> set (tableCodes ?gm constraints t)" for rc
    using t that unfolding set_reasonCodes by blast
  have own: "rc \<in> set (tableCodes ?gm constraints t)"
    if d: "distinct (map tableId (tables plan))" and rc: "rc \<in> set (reasonCodes ?E)"
      and tid: "rc_tableId rc = tableId t" for rc
  proof -
    from rc obtain t' where t': "t' \<in> set (tables plan)" "rc \<in> set (tableCodes ?gm constraints t')"
      unfolding set_reasonCodes by blast
    then have e: "tableId t' = tableId t" using tid by (simp add: tableCodes_tableId)
    from d have "inj_on tableId (set (tables plan))" by (simp add: distinct_map)
    then have "t' = t" using e t'(1) t by (rule inj_onD)
    with t' show ?thesis by simp
  qed
  have rest: "rc_code rc \<noteq> ''SAME_COMPANY'' \<and> rc_code rc \<noteq> ''COMPANY_DIVERSITY''"
    if "rc \<in> set ?rest" for rc
    using that by (rule other_codes)
  have A: "?single \<longrightarrow> ?A1 \<and> ?A2 \<and> ?A3"
  proof
    assume only: ?single
    let ?rc = "mkCode ''SAME_COMPANY'' t (guestIds t) (''Same company table: All guests from '' @ c)
                 Negative (Some ObjNovelty)"
    have cc: "companyCodes t ?tg = [?rc]"
      using companies_single [OF g c only] len by (intro companyCodes_single) auto
    have a2: ?A2
    proof
      fix rc assume "rc \<in> set (tableCodes ?gm constraints t)"
      then have "rc = ?rc \<or> rc \<in> set ?rest" unfolding tc cc by simp
      then show "rc_code rc \<noteq> ''COMPANY_DIVERSITY''"
      proof
        assume "rc = ?rc" then show ?thesis by (simp add: mkCode_def)
      next
        assume "rc \<in> set ?rest" then show ?thesis using rest by blast
      qed
    qed
    have "?rc \<in> set (tableCodes ?gm constraints t)" unfolding tc cc by simp
    then have "?rc \<in> set (reasonCodes ?E)" by (rule sub)
    then have a1: ?A1
      by (rule rev_bexI) (simp add: mkCode_def)
    have a3: ?A3 using a2 own by blast
    from a1 a2 a3 show "?A1 \<and> ?A2 \<and> ?A3" by (intro conjI)
  qed
  have B: "?other \<longrightarrow> ?B1 \<and> ?B2 \<and> ?B3"
  proof
    assume ?other
    then obtain g' where g': "g' \<in> set ?tg" "truthy (company g')" "company g' \<noteq> Some c"
      by blast
    let ?rc = "mkCode ''COMPANY_DIVERSITY'' t (guestIds t)
           (''Cross-company networking: '' @ show_nat (card (set (truthyValues (map company ?tg))))
            @ '' different companies represented'')
           Positive (Some ObjDiversity)"
    have cc: "companyCodes t ?tg = [?rc]"
      using companies_several [OF g c g'] by (rule companyCodes_several)
    have b2: ?B2
    proof
      fix rc assume "rc \<in> set (tableCodes ?gm constraints t)"
      then have "rc = ?rc \<or> rc \<in> set ?rest" unfolding tc cc by simp
      then show "rc_code rc \<noteq> ''SAME_COMPANY''"
      proof
        assume "rc = ?rc" then show ?thesis by (simp add: mkCode_def)
      next
        assume "rc \<in> set ?rest" then show ?thesis using rest by blast
      qed
    qed
    have "?rc \<in> set (tableCodes ?gm constraints t)" unfolding tc cc by simp
    then have "?rc \<in> set (reasonCodes ?E)" by (rule sub)
    then have b1: ?B1
      by (rule rev_bexI) (simp add: mkCode_def)
    have b3: ?B3 using b2 own by blast
    from b1 b2 b3 show "?B1 \<and> ?B2 \<and> ?B3" by (intro conjI)
  qed
  from A B show ?thesis by (rule conjI)
qed


theorem same_company_emitted_witness:
  "list_ex (\<lambda>rc. rc_code rc = ''SAME_COMPANY'' \<and> rc_tableId rc = ''table_1'' \<and> rc_impact rc = Negative
              \<and> rc_guestIds rc = [''a'', ''b'', ''c'']
              \<and> rc_description rc = ''Same company table: All guests from A'')
     (reasonCodes (generateExplanations
        \<lparr>tables = [exTable ''table_1'' [''a'', ''b'', ''c'']]\<rparr> (take 3 threeAndOne) zeroMetrics []))
   \<and> list_ex (\<lambda>rc. rc_code rc = ''COMPANY_DIVERSITY'' \<and> rc_tableId rc = ''table_1''
              \<and> rc_impact rc = Positive \<and> rc_guestIds rc = [''a'', ''b'', ''c'', ''d'']
              \<and> rc_description rc = ''Cross-company networking: 2 different companies represented'')
     (reasonCodes (generateExplanations
        \<lparr>tables = [exTable ''table_1'' [''a'', ''b'', ''c'', ''d'']]\<rparr> threeAndOne zeroMetrics []))
   \<and> \<not> list_ex (\<lambda>rc. rc_tableId rc = ''table_1'' \<and> rc_code rc = ''SAME_COMPANY'')
     (reasonCodes (generateExplanations
        \<lparr>tables = [exTable ''table_1'' [''a'', ''b'', ''c'', ''d'']]\<rparr> threeAndOne zeroMetrics []))"
proof -
  let ?t3 = "exTable ''table_1'' [''a'', ''b'', ''c'']"
  let ?t4 = "exTable ''table_1'' [''a'', ''b'', ''c'', ''d'']"
  let ?E3 = "generateExplanations \<lparr>tables = [?t3]\<rparr> (take 3 threeAndOne) zeroMetrics []"
  let ?E4 = "generateExplanations \<lparr>tables = [?t4]\<rparr> threeAndOne zeroMetrics []"
  have tg3: "tableGuestsOf (guestMapOf (take 3 threeAndOne)) ?t3 = take 3 threeAndOne"
    by (simp add: tableGuestsOf_def guestMapOf_def threeAndOne_def exGuest_def exTable_def
        List.map_filter_def)
  have tg4: "tableGuestsOf (guestMapOf threeAndOne) ?t4 = threeAndOne"
    by (simp add: tableGuestsOf_def guestMapOf_def threeAndOne_def exGuest_def exTable_def
        List.map_filter_def)
  have three3: "3 \<le> length (filter (\<lambda>g. company g = Some ''A'')
             (tableGuestsOf (guestMapOf (take 3 threeAndOne)) ?t3))"
    unfolding tg3 by (simp add: threeAndOne_def exGuest_def)
  have three4: "3 \<le> length (filter (\<lambda>g. company g = Some ''A'')
             (tableGuestsOf (guestMapOf threeAndOne) ?t4))"
    unfolding tg4 by (simp add: threeAndOne_def exGuest_def)
  have only3: "\<forall>g \<in> set (tableGuestsOf (guestMapOf (take 3 threeAndOne)) ?t3).
             truthy (company g) \<longrightarrow> company g = Some ''A''"
    unfolding tg3 by (simp add: threeAndOne_def exGuest_def)
  have other4: "\<exists>g \<in> set (tableGuestsOf (guestMapOf threeAndOne) ?t4).
             truthy (company g) \<and> company g \<noteq> Some ''A''"
    unfolding tg4 by (simp add: threeAndOne_def exGuest_def truthy_def)
  have count4: "show_nat (card (set (truthyValues (map company
                  (tableGuestsOf (guestMapOf threeAndOne) ?t4))))) = ''2''"
  proof -
    have "card (set (truthyValues (map company threeAndOne))) = 2"
      by (simp add: threeAndOne_def exGuest_def truthyValues_def List.map_filter_def truthy_def)
    then show ?thesis
      unfolding tg4 by (simp add: show_nat.simps [of 2] digit_char_def)
  qed
  have d4: "distinct (map tableId (tables \<lparr>tables = [?t4]\<rparr>))" by simp
  have a: "\<exists>rc \<in> set (reasonCodes ?E3).
           rc_code rc = ''SAME_COMPANY'' \<and> rc_tableId rc = tableId ?t3 \<and> rc_impact rc = Negative
           \<and> rc_guestIds rc = guestIds ?t3
           \<and> rc_description rc = ''Same company table: All guests from '' @ ''A''"
    using same_company_emitted [where t = ?t3 and plan = "\<lparr>tables = [?t3]\<rparr>" and c = "''A''"
        and guests = "take 3 threeAndOne" and metrics = zeroMetrics and constraints = "[]"]
      three3 only3 by simp
  have b: "(\<exists>rc \<in> set (reasonCodes ?E4).
           rc_code rc = ''COMPANY_DIVERSITY'' \<and> rc_tableId rc = tableId ?t4 \<and> rc_impact rc = Positive
           \<and> rc_guestIds rc = guestIds ?t4
           \<and> rc_description rc =
               ''Cross-company networking: ''
               @ show_nat (card (set (truthyValues (map company
                    (tableGuestsOf (guestMapOf threeAndOne) ?t4)))))
               @ '' different companies represented'')
         \<and> (\<forall>rc \<in> set (reasonCodes ?E4).
               rc_tableId rc = tableId ?t4 \<longrightarrow> rc_code rc \<noteq> ''SAME_COMPANY'')"
    using same_company_emitted [where t = ?t4 and plan = "\<lparr>tables = [?t4]\<rparr>" and c = "''A''"
        and guests = threeAndOne and metrics = zeroMetrics and constraints = "[]"]
      three4 other4 d4 by simp
  from a have 1: "list_ex (\<lambda>rc. rc_code rc = ''SAME_COMPANY'' \<and> rc_tableId rc = ''table_1''
              \<and> rc_impact rc = Negative \<and> rc_guestIds rc = [''a'', ''b'', ''c'']
              \<and> rc_description rc = ''Same company table: All guests from A'') (reasonCodes ?E3)"
    by (simp add: list_ex_iff exTable_def)
  from b have 2: "list_ex (\<lambda>rc. rc_code rc = ''COMPANY_DIVERSITY'' \<and> rc_tableId rc = ''table_1''
              \<and> rc_impact rc = Positive \<and> rc_guestIds rc = [''a'', ''b'', ''c'', ''d'']
              \<and> rc_description rc = ''Cross-company networking: 2 different companies represented'')
            (reasonCodes ?E4)"
    unfolding count4 by (simp add: list_ex_iff exTable_def)
  from b have 3: "\<not> list_ex (\<lambda>rc. rc_tableId rc = ''table_1'' \<and> rc_code rc = ''SAME_COMPANY'')
            (reasonCodes ?E4)"
    by (simp add: list_ex_iff exTable_def)
  from 1 2 3 show ?thesis by (intro conjI)
qed

section \<open>Properties of the constraint validator\<close>

subsection \<open>The map from guests to tables\<close>

lemma fold_upd_const:
  "fold (\<lambda>g m'. m'(g \<mapsto> k)) gs m = (\<lambda>x. if x \<in> set gs then Some k else m x)"
  by (induction gs arbitrary: m) (auto simp: fun_eq_iff)

lemma guestToTable_fold_notin:
  "g \<notin> set (concat (map guestIds ts)) \<Longrightarrow>
   fold (\<lambda>t m. fold (\<lambda>g m'. m'(g \<mapsto> tableId t)) (guestIds t) m) ts m g = m g"
  by (induction ts arbitrary: m) (auto simp: fold_upd_const)

lemma guestToTable_fold_in:
  "distinct (concat (map guestIds ts)) \<Longrightarrow> t \<in> set ts \<Longrightarrow> g \<in> set (guestIds t) \<Longrightarrow>
   fold (\<lambda>t m. fold (\<lambda>g m'. m'(g \<mapsto> tableId t)) (guestIds t) m) ts m g = Some (tableId t)"
proof (induction ts arbitrary: m)
  case Nil
  then show ?case by simp
next
  case (Cons t0 ts)
  show ?case
  proof (cases "t \<in> set ts")
    case True
    with Cons show ?thesis by simp
  next
    case False
    with Cons.prems have t0: "t = t0" by simp
    from Cons.prems t0 have "g \<notin> set (concat (map guestIds ts))" by auto
    from guestToTable_fold_notin [OF this]
    have "fold (\<lambda>t m. fold (\<lambda>g m'. m'(g \<mapsto> tableId t)) (guestIds t) m) (t0 # ts) m g
          = fold (\<lambda>g m'. m'(g \<mapsto> tableId t0)) (guestIds t0) m g"
      by (simp del: fun_upd_apply)
    also have "\<dots> = Some (tableId t0)"
      using Cons.prems t0 unfolding fold_upd_const by simp
    finally show ?thesis using t0 by (simp del: fun_upd_apply)
  qed
qed

lemma guestToTable_fold_Some:
  "fold (\<lambda>t m. fold (\<lambda>g m'. m'(g \<mapsto> tableId t)) (guestIds t) m) ts m g = Some k \<Longrightarrow>
   m g = Some k \<or> (\<exists>t\<in>set ts. g \<in> set (guestIds t) \<and> tableId t = k)"
  by (induction ts arbitrary: m) (fastforce simp: fold_upd_const split: if_splits)+

lemma guestToTableOf_in:
  "distinct (concat (map guestIds (tables plan))) \<Longrightarrow> t \<in> set (tables plan) \<Longrightarrow>
   g \<in> set (guestIds t) \<Longrightarrow> guestToTableOf plan g = Some (tableId t)"
  by (simp add: guestToTableOf_def guestToTable_fold_in)

lemma guestToTableOf_Some:
  "guestToTableOf plan g = Some k \<Longrightarrow> \<exists>t\<in>set (tables plan). g \<in> set (guestIds t) \<and> tableId t = k"
  using guestToTable_fold_Some [of "tables plan" Map.empty g k] by (simp add: guestToTableOf_def)

subsection \<open>Grouping a constraint's guests by table\<close>

lemma groupByTable_fold: "groupByTable ids m = fold (groupStep m) ids []"
  by (simp add: groupByTable_def)

lemma groupByTable_snoc: "groupByTable (ids @ [x]) m = groupStep m x (groupByTable ids m)"
  by (simp add: groupByTable_fold)

lemma distinct_groupByTable: "distinct (map fst (groupByTable ids m))"
  by (induction ids rule: rev_induct)
     (auto simp: groupByTable_snoc groupStep_def groupByTable_def distinct_update split: option.splits)

lemma map_of_groupByTable:
  "map_of (groupByTable ids m) k =
     (if \<exists>g\<in>set ids. lookupTable m g = Some k
      then Some (filter (\<lambda>g. lookupTable m g = Some k) ids) else None)"
proof (induction ids rule: rev_induct)
  case Nil
  then show ?case by (simp add: groupByTable_def)
next
  case (snoc x xs)
  show ?case
  proof (cases "lookupTable m x")
    case None
    with snoc show ?thesis by (auto simp: groupByTable_snoc groupStep_def)
  next
    case (Some t)
    have "\<not> (\<exists>g\<in>set xs. lookupTable m g = Some t) \<Longrightarrow> filter (\<lambda>g. lookupTable m g = Some t) xs = []"
      by (auto simp: filter_empty_conv)
    with snoc Some show ?thesis
      by (auto simp: groupByTable_snoc groupStep_def update_conv')
  qed
qed

lemma groupByTable_mem:
  "(k, gs) \<in> set (groupByTable ids m) \<longleftrightarrow>
     (\<exists>g\<in>set ids. lookupTable m g = Some k) \<and> gs = filter (\<lambda>g. lookupTable m g = Some k) ids"
  using map_of_eq_Some_iff [OF distinct_groupByTable, of ids m k gs]
  by (auto simp: map_of_groupByTable split: if_splits)

lemma groupStep_keys: "\<exists>zs. map fst (groupStep m x al) = map fst al @ zs"
  by (auto simp: groupStep_def update_keys split: option.splits)

lemma fold_groupStep_keys: "\<exists>zs. map fst (fold (groupStep m) xs al) = map fst al @ zs"
proof (induction xs arbitrary: al)
  case Nil
  then show ?case by simp
next
  case (Cons x xs)
  from groupStep_keys obtain zs where 1: "map fst (groupStep m x al) = map fst al @ zs" by blast
  from Cons [of "groupStep m x al"] obtain zs' where
    "map fst (fold (groupStep m) xs (groupStep m x al)) = map fst (groupStep m x al) @ zs'" by blast
  with 1 show ?case by simp
qed

lemma groupByTable_prefix:
  "\<exists>zs. map fst (groupByTable (pre @ rest) m) = map fst (groupByTable pre m) @ zs"
  using fold_groupStep_keys [of m rest "groupByTable pre m"] by (simp add: groupByTable_fold)


subsection \<open>Must-not-sit-together on well-formed plans\<close>

lemma lookupTable_iff:
  assumes "distinct (map tableId (tables plan))"
    and "\<forall>t\<in>set (tables plan). tableId t \<noteq> []"
    and "distinct (concat (map guestIds (tables plan)))"
    and "t \<in> set (tables plan)"
  shows "lookupTable (guestToTableOf plan) g = Some (tableId t) \<longleftrightarrow> g \<in> set (guestIds t)"
proof
  assume "lookupTable (guestToTableOf plan) g = Some (tableId t)"
  then have "guestToTableOf plan g = Some (tableId t)"
    by (auto simp: lookupTable_def split: option.splits if_splits)
  from guestToTableOf_Some [OF this] obtain t' where
    t': "t' \<in> set (tables plan)" "g \<in> set (guestIds t')" "tableId t' = tableId t" by blast
  from assms(1) have "inj_on tableId (set (tables plan))" by (simp add: distinct_map)
  with t' assms(4) have "t' = t" by (auto dest: inj_onD)
  with t' show "g \<in> set (guestIds t)" by simp
next
  assume "g \<in> set (guestIds t)"
  with assms show "lookupTable (guestToTableOf plan) g = Some (tableId t)"
    by (simp add: lookupTable_def guestToTableOf_in)
qed

lemma lookupTable_Some:
  "lookupTable (guestToTableOf plan) g = Some k \<Longrightarrow>
   \<exists>t\<in>set (tables plan). g \<in> set (guestIds t) \<and> tableId t = k"
  using guestToTableOf_Some [of plan g k]
  by (auto simp: lookupTable_def split: option.splits if_splits)

lemma members_card:
  assumes "distinct (map tableId (tables plan))"
    and "\<forall>t\<in>set (tables plan). tableId t \<noteq> []"
    and "distinct (concat (map guestIds (tables plan)))"
    and "t \<in> set (tables plan)"
    and "distinct ids"
  shows "filter (\<lambda>g. lookupTable (guestToTableOf plan) g = Some (tableId t)) ids
           = filter (\<lambda>g. g \<in> set (guestIds t)) ids"
    and "length (filter (\<lambda>g. g \<in> set (guestIds t)) ids) = card (set (guestIds t) \<inter> set ids)"
proof -
  show "filter (\<lambda>g. lookupTable (guestToTableOf plan) g = Some (tableId t)) ids
           = filter (\<lambda>g. g \<in> set (guestIds t)) ids"
    using lookupTable_iff [OF assms(1-4)] by simp
  have "{x. x \<in> set (guestIds t)} = set (guestIds t)" by simp
  with distinct_length_filter [OF assms(5), of "\<lambda>g. g \<in> set (guestIds t)"]
  show "length (filter (\<lambda>g. g \<in> set (guestIds t)) ids) = card (set (guestIds t) \<inter> set ids)"
    by simp
qed


lemma mustNot_None_iff:
  assumes wf: "distinct (map tableId (tables plan))" "\<forall>t\<in>set (tables plan). tableId t \<noteq> []"
      "distinct (concat (map guestIds (tables plan)))"
    and ids: "distinct (c_guestIds c)"
  shows "checkMustNotSitTogether c (guestToTableOf plan) = None \<longleftrightarrow>
         (\<forall>t\<in>set (tables plan). card (set (guestIds t) \<inter> set (c_guestIds c)) \<le> 1)"
proof -
  let ?L = "lookupTable (guestToTableOf plan)"
  let ?al = "groupByTable (c_guestIds c) (guestToTableOf plan)"
  have "checkMustNotSitTogether c (guestToTableOf plan) = None \<longleftrightarrow>
        List.find (\<lambda>(t, gs). length gs > 1) ?al = None"
    by (auto simp: checkMustNotSitTogether_def split: option.splits)
  also have "\<dots> \<longleftrightarrow> (\<forall>(k, gs)\<in>set ?al. length gs \<le> 1)"
    by (auto simp: find_None_iff not_less)
  also have "\<dots> \<longleftrightarrow> (\<forall>t\<in>set (tables plan). card (set (guestIds t) \<inter> set (c_guestIds c)) \<le> 1)"
  proof
    assume a: "\<forall>(k, gs)\<in>set ?al. length gs \<le> 1"
    show "\<forall>t\<in>set (tables plan). card (set (guestIds t) \<inter> set (c_guestIds c)) \<le> 1"
    proof
      fix t assume t: "t \<in> set (tables plan)"
      show "card (set (guestIds t) \<inter> set (c_guestIds c)) \<le> 1"
      proof (cases "\<exists>g\<in>set (c_guestIds c). g \<in> set (guestIds t)")
        case False
        then have "set (guestIds t) \<inter> set (c_guestIds c) = {}" by auto
        then show ?thesis by simp
      next
        case True
        then have "\<exists>g\<in>set (c_guestIds c). ?L g = Some (tableId t)"
          using lookupTable_iff [OF wf t] by blast
        then have "(tableId t, filter (\<lambda>g. ?L g = Some (tableId t)) (c_guestIds c)) \<in> set ?al"
          by (simp add: groupByTable_mem)
        with a have "length (filter (\<lambda>g. ?L g = Some (tableId t)) (c_guestIds c)) \<le> 1" by auto
        then show ?thesis using members_card [OF wf t ids] by simp
      qed
    qed
  next
    assume b: "\<forall>t\<in>set (tables plan). card (set (guestIds t) \<inter> set (c_guestIds c)) \<le> 1"
    show "\<forall>(k, gs)\<in>set ?al. length gs \<le> 1"
    proof clarify
      fix k gs assume "(k, gs) \<in> set ?al"
      then obtain g where g: "g \<in> set (c_guestIds c)" "?L g = Some k"
        and gs: "gs = filter (\<lambda>g. ?L g = Some k) (c_guestIds c)"
        by (auto simp: groupByTable_mem)
      from lookupTable_Some [OF g(2)] obtain t where t: "t \<in> set (tables plan)" "tableId t = k"
        by blast
      from b t have "card (set (guestIds t) \<inter> set (c_guestIds c)) \<le> 1" by blast
      then show "length gs \<le> 1"
        using members_card [OF wf t(1) ids] gs t(2) by simp
    qed
  qed
  finally show ?thesis .
qed

lemma mustNot_Some:
  assumes wf: "distinct (map tableId (tables plan))" "\<forall>t\<in>set (tables plan). tableId t \<noteq> []"
      "distinct (concat (map guestIds (tables plan)))"
    and ids: "distinct (c_guestIds c)"
    and v: "checkMustNotSitTogether c (guestToTableOf plan) = Some v"
  shows "\<exists>t\<in>set (tables plan).
           card (set (guestIds t) \<inter> set (c_guestIds c)) > 1
           \<and> v = \<lparr>v_constraintId = c_id c, v_constraintType = MUST_NOT_SIT_TOGETHER,
                  v_message = ''Guests must not sit together but ''
                              @ show_nat (card (set (guestIds t) \<inter> set (c_guestIds c)))
                              @ '' are at the same table'',
                  v_tableId = Some (tableId t),
                  v_guestIds = filter (\<lambda>g. g \<in> set (guestIds t)) (c_guestIds c)\<rparr>
           \<and> (\<forall>g\<in>set (takeWhile (\<lambda>g. g \<notin> set (guestIds t)) (c_guestIds c)).
                \<forall>t'\<in>set (tables plan). g \<in> set (guestIds t') \<longrightarrow>
                  card (set (guestIds t') \<inter> set (c_guestIds c)) \<le> 1)"
proof -
  let ?L = "lookupTable (guestToTableOf plan)"
  let ?m = "guestToTableOf plan"
  let ?ids = "c_guestIds c"
  let ?al = "groupByTable ?ids ?m"
  let ?P = "\<lambda>(t, gs). length (gs :: string list) > 1"
  from v obtain k gs where f: "List.find ?P ?al = Some (k, gs)"
    and veq: "v = \<lparr>v_constraintId = c_id c, v_constraintType = MUST_NOT_SIT_TOGETHER,
                  v_message = ''Guests must not sit together but '' @ show_nat (length gs)
                              @ '' are at the same table'',
                  v_tableId = Some k, v_guestIds = gs\<rparr>"
    by (auto simp: checkMustNotSitTogether_def split: option.splits)
  from f obtain i where i: "i < length ?al" "?al ! i = (k, gs)" "length gs > 1"
    and first: "\<forall>j<i. \<not> ?P (?al ! j)"
    by (auto simp: find_Some_iff)
  from i have mem: "(k, gs) \<in> set ?al" by (metis nth_mem)
  then obtain g0 where g0: "g0 \<in> set ?ids" "?L g0 = Some k"
    and gs: "gs = filter (\<lambda>g. ?L g = Some k) ?ids"
    by (auto simp: groupByTable_mem)
  from lookupTable_Some [OF g0(2)] obtain t where t: "t \<in> set (tables plan)" "tableId t = k"
    by blast
  have gs': "gs = filter (\<lambda>g. g \<in> set (guestIds t)) ?ids"
    and len: "length gs = card (set (guestIds t) \<inter> set ?ids)"
    using members_card [OF wf t(1) ids] gs t(2) by simp_all
  let ?pre = "takeWhile (\<lambda>g. g \<notin> set (guestIds t)) ?ids"
  have firstness: "card (set (guestIds t') \<inter> set ?ids) \<le> 1"
    if g: "g \<in> set ?pre" and t': "t' \<in> set (tables plan)" and gt': "g \<in> set (guestIds t')"
    for g t'
  proof -
    let ?alp = "groupByTable ?pre ?m"
    have split: "?ids = ?pre @ dropWhile (\<lambda>g. g \<notin> set (guestIds t)) ?ids" by simp
    from groupByTable_prefix [of ?pre "dropWhile (\<lambda>g. g \<notin> set (guestIds t)) ?ids" ?m]
    obtain zs where zs: "map fst ?al = map fst ?alp @ zs" by auto
    have k_notin: "k \<notin> set (map fst ?alp)"
    proof
      assume "k \<in> set (map fst ?alp)"
      then obtain gs0 where "(k, gs0) \<in> set ?alp" by auto
      then obtain x where x: "x \<in> set ?pre" "?L x = Some k" by (auto simp: groupByTable_mem)
      from x(1) have "x \<notin> set (guestIds t)" by (auto dest: set_takeWhileD)
      with x(2) t lookupTable_iff [OF wf t(1), of x] show False by simp
    qed
    have "?L g = Some (tableId t')" using lookupTable_iff [OF wf t'] gt' by simp
    with g have "(tableId t', filter (\<lambda>x. ?L x = Some (tableId t')) ?pre) \<in> set ?alp"
      by (auto simp: groupByTable_mem)
    then have "tableId t' \<in> set (map fst ?alp)" by force
    then obtain j where j: "j < length ?alp" "map fst ?alp ! j = tableId t'"
      by (metis in_set_conv_nth length_map)
    have ji: "j < i"
    proof (rule ccontr)
      assume "\<not> j < i"
      with j(1) have "i < length (map fst ?alp)" by simp
      then have "(map fst ?alp @ zs) ! i \<in> set (map fst ?alp)"
        by (simp add: nth_append)
      moreover have "(map fst ?alp @ zs) ! i = k"
        using zs i(1,2) by (metis fst_conv nth_map)
      ultimately show False using k_notin by simp
    qed
    have jl: "j < length ?al" using ji i(1) by simp
    have "map fst ?al ! j = map fst ?alp ! j"
      unfolding zs using j(1) by (simp add: nth_append)
    with j(2) jl have "fst (?al ! j) = tableId t'" by simp
    moreover from jl have "(fst (?al ! j), snd (?al ! j)) \<in> set ?al" by simp
    ultimately have "?al ! j = (tableId t', filter (\<lambda>x. ?L x = Some (tableId t')) ?ids)"
      using groupByTable_mem [of "fst (?al ! j)" "snd (?al ! j)" ?ids ?m]
      by (simp add: prod_eq_iff)
    with first ji have "length (filter (\<lambda>x. ?L x = Some (tableId t')) ?ids) \<le> 1" by force
    then show ?thesis using members_card [OF wf t' ids] by simp
  qed
  show ?thesis
  proof (rule bexI [OF _ t(1)], intro conjI ballI impI)
    show "1 < card (set (guestIds t) \<inter> set ?ids)" using i(3) len by simp
    show "v = \<lparr>v_constraintId = c_id c, v_constraintType = MUST_NOT_SIT_TOGETHER,
                  v_message = ''Guests must not sit together but ''
                              @ show_nat (card (set (guestIds t) \<inter> set (c_guestIds c)))
                              @ '' are at the same table'',
                  v_tableId = Some (tableId t),
                  v_guestIds = filter (\<lambda>g. g \<in> set (guestIds t)) (c_guestIds c)\<rparr>"
      using veq len gs' t(2) by simp
  next
    fix g t' assume "g \<in> set ?pre" "t' \<in> set (tables plan)" "g \<in> set (guestIds t')"
    then show "card (set (guestIds t') \<inter> set ?ids) \<le> 1" by (rule firstness)
  qed
qed


lemma validateConstraints_single:
  "c_type c = MUST_NOT_SIT_TOGETHER \<Longrightarrow>
   validateConstraints plan [c] guests =
     (case checkMustNotSitTogether c (guestToTableOf plan) of
        None \<Rightarrow> \<lparr>valid = True, violations = []\<rparr>
      | Some v \<Rightarrow> \<lparr>valid = False, violations = [v]\<rparr>)"
  by (simp add: validateConstraints_def violationsOf_def Let_def split: option.splits)

lemma validateConstraints_concat:
  "violations (validateConstraints plan cs guests)
     = concat (map (\<lambda>c. violations (validateConstraints plan [c] guests)) cs)"
  by (simp add: validateConstraints_def Let_def)

text \<open>
  C9, as stated for every plan, fails: the validator looks guests up in a map from guest
  id to one table id, so a plan that lists guest \<open>a\<close> at two tables is judged by the
  last of them. With \<open>a\<close> and \<open>b\<close> both at table 1 and \<open>a\<close> again at table 2, the
  constraint keeping \<open>a\<close> and \<open>b\<close> apart is reported satisfied although table 1
  holds both.
\<close>

theorem seated_twice_not_reported:
  "valid (validateConstraints
            \<lparr>tables = [exTable ''table_1'' [''a'', ''b''], exTable ''table_2'' [''a'']]\<rparr>
            [apartAB] threeJuniors)
   \<and> card (set (guestIds (exTable ''table_1'' [''a'', ''b''])) \<inter> set (c_guestIds apartAB)) = 2"
  by (simp add: validateConstraints_def violationsOf_def checkMustNotSitTogether_def
      groupByTable_def groupStep_def lookupTable_def guestToTableOf_def apartAB_def
      exConstraint_def exTable_def)

text \<open>
  C9, amended. Let the plan have distinct, non-empty table ids and seat no guest twice,
  and let a must-not-sit-together constraint list each guest id once. Then
  \<open>validateConstraints\<close> on that constraint reports the plan valid exactly when no table
  holds more than one of the constraint's guest ids. Otherwise it produces exactly one
  violation, carrying the constraint id, the id of a table that holds at least two of the
  constraint's guests, and those guests in the constraint's order; that table is the
  first offending one in the order in which the constraint lists its guests (every guest
  listed before the first guest of that table sits at no offending table). For a list of
  constraints the violations are those of the single constraints, concatenated.
\<close>

theorem mustNotSitTogether_validation:
  assumes "distinct (map tableId (tables plan))"
    and "\<forall>t\<in>set (tables plan). tableId t \<noteq> []"
    and "distinct (concat (map guestIds (tables plan)))"
    and "distinct (c_guestIds c)"
    and "c_type c = MUST_NOT_SIT_TOGETHER"
  shows "(valid (validateConstraints plan [c] guests) \<longleftrightarrow>
            (\<forall>t\<in>set (tables plan). card (set (guestIds t) \<inter> set (c_guestIds c)) \<le> 1))
    \<and> (\<not> valid (validateConstraints plan [c] guests) \<longrightarrow>
          (\<exists>t\<in>set (tables plan).
              card (set (guestIds t) \<inter> set (c_guestIds c)) > 1
              \<and> violations (validateConstraints plan [c] guests) =
                  [\<lparr>v_constraintId = c_id c, v_constraintType = MUST_NOT_SIT_TOGETHER,
                    v_message = ''Guests must not sit together but ''
                                @ show_nat (card (set (guestIds t) \<inter> set (c_guestIds c)))
                                @ '' are at the same table'',
                    v_tableId = Some (tableId t),
                    v_guestIds = filter (\<lambda>g. g \<in> set (guestIds t)) (c_guestIds c)\<rparr>]
              \<and> (\<forall>g\<in>set (takeWhile (\<lambda>g. g \<notin> set (guestIds t)) (c_guestIds c)).
                   \<forall>t'\<in>set (tables plan). g \<in> set (guestIds t') \<longrightarrow>
                     card (set (guestIds t') \<inter> set (c_guestIds c)) \<le> 1)))
    \<and> violations (validateConstraints plan cs guests)
         = concat (map (\<lambda>c. violations (validateConstraints plan [c] guests)) cs)"
proof (intro conjI impI)
  show "valid (validateConstraints plan [c] guests) \<longleftrightarrow>
            (\<forall>t\<in>set (tables plan). card (set (guestIds t) \<inter> set (c_guestIds c)) \<le> 1)"
    using mustNot_None_iff [OF assms(1-4)]
    by (cases "checkMustNotSitTogether c (guestToTableOf plan)")
       (simp_all add: validateConstraints_single [OF assms(5)])
next
  assume "\<not> valid (validateConstraints plan [c] guests)"
  then obtain v where v: "checkMustNotSitTogether c (guestToTableOf plan) = Some v"
    and vs: "violations (validateConstraints plan [c] guests) = [v]"
    by (auto simp: validateConstraints_single [OF assms(5)] split: option.splits)
  from mustNot_Some [OF assms(1-4) v] vs
  show "\<exists>t\<in>set (tables plan).
              card (set (guestIds t) \<inter> set (c_guestIds c)) > 1
              \<and> violations (validateConstraints plan [c] guests) =
                  [\<lparr>v_constraintId = c_id c, v_constraintType = MUST_NOT_SIT_TOGETHER,
                    v_message = ''Guests must not sit together but ''
                                @ show_nat (card (set (guestIds t) \<inter> set (c_guestIds c)))
                                @ '' are at the same table'',
                    v_tableId = Some (tableId t),
                    v_guestIds = filter (\<lambda>g. g \<in> set (guestIds t)) (c_guestIds c)\<rparr>]
              \<and> (\<forall>g\<in>set (takeWhile (\<lambda>g. g \<notin> set (guestIds t)) (c_guestIds c)).
                   \<forall>t'\<in>set (tables plan). g \<in> set (guestIds t') \<longrightarrow>
                     card (set (guestIds t') \<inter> set (c_guestIds c)) \<le> 1)"
    by simp
next
  show "violations (validateConstraints plan cs guests)
         = concat (map (\<lambda>c. violations (validateConstraints plan [c] guests)) cs)"
    by (rule validateConstraints_concat)
qed

theorem mustNotSitTogether_validation_witness:
  "\<not> valid (validateConstraints
              \<lparr>tables = [exTable ''table_1'' [''a'', ''b''], exTable ''table_2'' [''c'']]\<rparr>
              [apartAB] threeJuniors)
   \<and> valid (validateConstraints
              \<lparr>tables = [exTable ''table_1'' [''a'', ''c''], exTable ''table_2'' [''b'']]\<rparr>
              [apartAB] threeJuniors)"
  using mustNotSitTogether_validation
      [of "\<lparr>tables = [exTable ''table_1'' [''a'', ''b''], exTable ''table_2'' [''c'']]\<rparr>"
          apartAB threeJuniors "[]"]
    mustNotSitTogether_validation
      [of "\<lparr>tables = [exTable ''table_1'' [''a'', ''c''], exTable ''table_2'' [''b'']]\<rparr>"
          apartAB threeJuniors "[]"]
  by (simp add: apartAB_def exConstraint_def exTable_def)

section \<open>Properties of the random source\<close>

text \<open>
  \<open>next()\<close> never returns 1: the state \<open>0x7fffffff\<close> is odd, a double of magnitude
  \<open>2^53\<close> or more is even, and for the seeds small enough for exact arithmetic the
  congruence \<open>seed * 1103515245 + 12345 = -1 (mod 2^31)\<close> has no solution. So the index
  \<open>j\<close> that \<open>shuffle\<close> draws for position \<open>i\<close> is at most \<open>i\<close>, and every exchange
  stays inside the array.
\<close>

lemma roundDouble_small: "\<bar>x\<bar> < 2 ^ 53 \<Longrightarrow> roundDouble x = x"
  by (simp add: roundDouble_def)

lemma roundDouble_large_even:
  assumes "\<bar>x\<bar> \<ge> 2 ^ 53"
  shows "even (roundDouble x)"
proof -
  let ?a = "\<bar>x\<bar>"
  have "(0::int) < 2 ^ 53" by simp
  with assms have pos: "?a > 0" by linarith
  from bitlen_bounds [OF pos] have "?a < 2 ^ nat (bitlen ?a)" by simp
  with assms have "(2::int) ^ 53 < 2 ^ nat (bitlen ?a)" by linarith
  then have "53 < nat (bitlen ?a)" by (rule power_less_imp_less_exp [rotated]) simp
  then have k: "nat (bitlen ?a - 53) \<ge> 1" by linarith
  then have "even ((2::int) ^ nat (bitlen ?a - 53))" by simp
  with assms show ?thesis
    by (simp add: roundDouble_def Let_def del: even_power)
qed

lemma roundDouble_large_abs:
  assumes "\<bar>x\<bar> \<ge> 2 ^ 53"
  shows "\<bar>roundDouble x\<bar> \<ge> 2 ^ 53"
proof -
  let ?a = "\<bar>x\<bar>"
  define k where "k = nat (bitlen ?a - 53)"
  define q where "q = ?a div 2 ^ k"
  define m where "m = (if ?a mod 2 ^ k > 2 ^ (k - 1) \<or> (?a mod 2 ^ k = 2 ^ (k - 1) \<and> odd q)
                       then q + 1 else q)"
  have "(0::int) < 2 ^ 53" by simp
  with assms have pos: "?a > 0" by linarith
  from bitlen_bounds [OF pos] have ub: "?a < 2 ^ nat (bitlen ?a)"
    and lb: "2 ^ nat (bitlen ?a - 1) \<le> ?a" by simp_all
  from ub assms have "(2::int) ^ 53 < 2 ^ nat (bitlen ?a)" by linarith
  then have "53 < nat (bitlen ?a)" by (rule power_less_imp_less_exp [rotated]) simp
  then have e: "nat (bitlen ?a - 1) = 52 + k" by (simp add: k_def)
  have "(2::int) ^ 52 * 2 ^ k \<le> ?a" using lb unfolding e by (simp add: power_add)
  then have "((2::int) ^ 52 * 2 ^ k) div 2 ^ k \<le> ?a div 2 ^ k"
    by (rule zdiv_mono1) simp
  then have "(2::int) ^ 52 \<le> q"
    unfolding q_def by simp
  then have "(2::int) ^ 52 \<le> m" by (simp add: m_def)
  moreover have "(2::int) \<le> 2 ^ k"
  proof -
    from \<open>53 < nat (bitlen ?a)\<close> have "1 \<le> k" by (simp add: k_def)
    then have "(2::int) ^ 1 \<le> 2 ^ k" by (intro power_increasing) simp_all
    then show ?thesis by simp
  qed
  ultimately have "(2::int) ^ 52 * 2 \<le> m * 2 ^ k"
    by (intro mult_mono) simp_all
  then have big: "(2::int) ^ 53 \<le> m * 2 ^ k" by simp
  have "roundDouble x = sgn x * (m * 2 ^ k)"
    using assms by (simp add: roundDouble_def Let_def m_def q_def k_def)
  then have "\<bar>roundDouble x\<bar> = \<bar>sgn x\<bar> * \<bar>m * 2 ^ k\<bar>" by (simp add: abs_mult)
  also have "\<bar>sgn x\<bar> = 1" using pos by (simp add: abs_sgn_eq)
  finally show ?thesis using big by simp
qed

lemma mod_pow31_even: "even ((x::int) mod 2147483648) \<longleftrightarrow> even x"
  by (rule dvd_mod_iff) simp

lemma exact_not_all_ones:
  assumes "\<bar>s * 1103515245\<bar> < (2::int) ^ 53"
  shows "(s * 1103515245 + 12345) mod 2 ^ 31 \<noteq> (2147483647::int)"
proof
  assume "(s * 1103515245 + 12345) mod 2 ^ 31 = (2147483647::int)"
  then have "(s * 1103515245 + 12345 + 1) mod 2 ^ 31 = (2147483647 + 1) mod 2 ^ 31"
    by (metis mod_add_left_eq)
  then have "(2::int) ^ 31 dvd s * 1103515245 + 12346"
    by (simp add: mod_eq_0_iff_dvd add.commute)
  then obtain n where n: "s * 1103515245 + 12346 = 2 ^ 31 * n" by (auto simp: dvd_def)
  then have "s = 2147483648 * (n * 1857678181 - 954594553 * s) - 22934894822626"
    by (simp add: algebra_simps)
  then obtain z where z: "s = 2147483648 * z - 22934894822626" ..
  from assms have "s * 1103515245 < 9007199254740992" "- 9007199254740992 < s * 1103515245"
    by simp_all
  then have b: "s < 230538014" "- 1916945634 < s" by linarith+
  have "z \<le> 10679 \<or> 10680 \<le> z" by linarith
  then show False
  proof
    assume "z \<le> 10679"
    with z have "s \<le> - 1916945634" by linarith
    with b show False by linarith
  next
    assume "10680 \<le> z"
    with z have "230538014 \<le> s" by linarith
    with b show False by linarith
  qed
qed

lemma nextSeed_not_all_ones: "nextSeed s \<noteq> 2147483647"
proof (cases "\<bar>s * 1103515245\<bar> < 2 ^ 53")
  case True
  then have r1: "roundDouble (s * 1103515245) = s * 1103515245" by (rule roundDouble_small)
  show ?thesis
  proof (cases "\<bar>s * 1103515245 + 12345\<bar> < 2 ^ 53")
    case True
    then show ?thesis
      using exact_not_all_ones [OF \<open>\<bar>s * 1103515245\<bar> < 2 ^ 53\<close>]
      by (simp add: nextSeed_def r1 roundDouble_small)
  next
    case False
    then have "even (roundDouble (s * 1103515245 + 12345))"
      by (intro roundDouble_large_even) simp
    then have "even (nextSeed s)" by (simp add: nextSeed_def r1 mod_pow31_even)
    then show ?thesis by auto
  qed
next
  case False
  then have e: "even (roundDouble (s * 1103515245))"
    by (intro roundDouble_large_even) simp
  from False have a: "2 ^ 53 \<le> \<bar>roundDouble (s * 1103515245)\<bar>"
    by (intro roundDouble_large_abs) simp
  define E where "E = roundDouble (s * 1103515245)"
  show ?thesis
  proof (cases "\<bar>E + 12345\<bar> < 2 ^ 53")
    case False
    then have "even (roundDouble (E + 12345))"
      by (intro roundDouble_large_even) simp
    then have "even (nextSeed s)" by (simp add: nextSeed_def E_def mod_pow31_even)
    then show ?thesis by auto
  next
    case True
    then have r: "roundDouble (E + 12345) = E + 12345" by (rule roundDouble_small)
    from True a have rng: "- 9007199254740992 - 12345 < E" "E \<le> - 9007199254740992"
      unfolding E_def by simp_all
    have "(E + 12345) mod 2147483648 \<noteq> 2147483647"
    proof
      assume "(E + 12345) mod 2147483648 = 2147483647"
      then have "(E + 12345 + 1) mod 2147483648 = (2147483647 + 1) mod 2147483648"
        by (metis mod_add_left_eq)
      then have "2147483648 dvd E + 12346" by (simp add: mod_eq_0_iff_dvd add.commute)
      then obtain n where n: "E + 12346 = 2147483648 * n" by (auto simp: dvd_def)
      have "n \<le> - 4194304 \<or> - 4194303 \<le> n" by linarith
      then show False using n rng by linarith
    qed
    then show ?thesis by (simp add: nextSeed_def r E_def [symmetric])
  qed
qed

lemma rng_next_range: "0 \<le> fst (rng_next s) \<and> fst (rng_next s) < 1"
proof -
  have "0 \<le> nextSeed s" "nextSeed s < 2147483648" by (simp_all add: nextSeed_def)
  with nextSeed_not_all_ones [of s] have "nextSeed s < 2147483647" by linarith
  with \<open>0 \<le> nextSeed s\<close> show ?thesis by (simp add: rng_next_def)
qed

lemma shuffle_index:
  "nat \<lfloor>fst (rng_next s) * real (i + 1)\<rfloor> \<le> i"
proof -
  from rng_next_range [of s] have "fst (rng_next s) * real (i + 1) < real (i + 1)"
    by (simp add: mult_less_cancel_right1)
  then have "\<lfloor>fst (rng_next s) * real (i + 1)\<rfloor> < int (i + 1)"
    by (simp add: floor_less_iff)
  then show ?thesis by linarith
qed

section \<open>Properties of the optimizer\<close>

subsection \<open>Tables as a multiset of seated guests\<close>

lemma withinCapacity_iff:
  "withinCapacity s ts \<longleftrightarrow> (\<forall>t\<in>set ts. length (guestIds t) \<le> s)"
  by (simp add: withinCapacity_def list_all_iff)

lemma seatedIds_update:
  assumes "i < length ts"
  shows "mset (seatedIds (ts[i := t'])) + mset (guestIds (ts ! i))
           = mset (seatedIds ts) + mset (guestIds t')"
proof -
  have a: "ts = take i ts @ ts ! i # drop (Suc i) ts"
    using assms by (rule id_take_nth_drop)
  have b: "ts[i := t'] = take i ts @ t' # drop (Suc i) ts"
    using assms by (rule upd_conv_take_nth_drop)
  have "mset (seatedIds ts) = mset (seatedIds (take i ts)) + mset (guestIds (ts ! i))
          + mset (seatedIds (drop (Suc i) ts))"
    by (subst a) (simp add: seatedIds_def)
  moreover have "mset (seatedIds (ts[i := t'])) = mset (seatedIds (take i ts)) + mset (guestIds t')
          + mset (seatedIds (drop (Suc i) ts))"
    by (subst b) (simp add: seatedIds_def)
  ultimately show ?thesis by simp
qed

lemma length_pushGuest [simp]: "length (pushGuest i g ts) = length ts"
  by (simp add: pushGuest_def)

lemma tableId_pushGuest [simp]: "map tableId (pushGuest i g ts) = map tableId ts"
  unfolding pushGuest_def map_update
  by (simp, metis list_update_id map_update)

lemma nth_pushGuest:
  "j < length ts \<Longrightarrow>
   guestIds (pushGuest i g ts ! j) = (if j = i then guestIds (ts ! j) @ [g] else guestIds (ts ! j))"
  by (simp add: pushGuest_def nth_list_update)

lemma seatedIds_pushGuest:
  "i < length ts \<Longrightarrow> mset (seatedIds (pushGuest i g ts)) = add_mset g (mset (seatedIds ts))"
  using seatedIds_update [of i ts "(ts ! i)\<lparr>guestIds := guestIds (ts ! i) @ [g]\<rparr>"]
  by (simp add: pushGuest_def)

lemma pushGuest_out_of_range: "\<not> i < length ts \<Longrightarrow> pushGuest i g ts = ts"
  by (simp add: pushGuest_def list_update_beyond)

lemma withinCapacity_pushGuest:
  assumes "withinCapacity s ts" and "i < length ts \<Longrightarrow> length (guestIds (ts ! i)) < s"
  shows "withinCapacity s (pushGuest i g ts)"
proof (cases "i < length ts")
  case False
  with assms show ?thesis by (simp add: pushGuest_out_of_range)
next
  case True
  have "set (pushGuest i g ts) \<subseteq> insert ((ts ! i)\<lparr>guestIds := guestIds (ts ! i) @ [g]\<rparr>) (set ts)"
    unfolding pushGuest_def by (rule set_update_subset_insert)
  with assms True show ?thesis by (auto simp: withinCapacity_iff)
qed

subsection \<open>findIndex\<close>

lemma findIndex_Some:
  "findIndex P xs = Some i \<Longrightarrow> i < length xs \<and> P (xs ! i) \<and> (\<forall>j<i. \<not> P (xs ! j))"
proof (induction xs arbitrary: i)
  case Nil
  then show ?case by simp
next
  case (Cons x xs)
  show ?case
  proof (cases "P x")
    case True
    with Cons.prems show ?thesis by simp
  next
    case False
    with Cons.prems obtain i' where i': "findIndex P xs = Some i'" "i = Suc i'" by auto
    from Cons.IH [OF i'(1)] False i'(2) show ?thesis
      by (auto simp: nth_Cons split: nat.splits)
  qed
qed

lemma findIndex_None: "findIndex P xs = None \<longleftrightarrow> (\<forall>x\<in>set xs. \<not> P x)"
  by (induction xs) auto

lemma findIndex_eq:
  "g \<in> set xs \<Longrightarrow> \<exists>i. findIndex (\<lambda>x. x = g) xs = Some i \<and> splice1 (Some i) xs = remove1 g xs"
proof (induction xs)
  case Nil
  then show ?case by simp
next
  case (Cons x xs)
  show ?case
  proof (cases "x = g")
    case True
    then show ?thesis by (simp add: splice1_def)
  next
    case False
    with Cons obtain i where "findIndex (\<lambda>x. x = g) xs = Some i" "splice1 (Some i) xs = remove1 g xs"
      by auto
    with False show ?thesis by (simp add: splice1_def)
  qed
qed

subsection \<open>Must-sit-together groups\<close>

lemma placeGroup_fold:
  assumes "i < length ts"
    and "length (guestIds (ts ! i)) + length gs \<le> s"
    and "withinCapacity s ts"
    and "mset (seatedIds ts) = mset asg"
    and "distinct asg"
  shows "case fold (\<lambda>guestId (ts, assigned).
                     if guestId \<in> set assigned then (ts, assigned)
                     else (pushGuest i guestId ts, assigned @ [guestId])) gs (ts, asg) of
           (ts', asg') \<Rightarrow>
             length ts' = length ts \<and> map tableId ts' = map tableId ts
             \<and> withinCapacity s ts' \<and> mset (seatedIds ts') = mset asg'
             \<and> distinct asg' \<and> set asg' \<subseteq> set asg \<union> set gs"
  using assms
proof (induction gs arbitrary: ts asg)
  case Nil
  then show ?case by simp
next
  case (Cons g gs)
  show ?case
  proof (cases "g \<in> set asg")
    case True
    with Cons.prems have "length (guestIds (ts ! i)) + length gs \<le> s" by simp
    from Cons.IH [OF Cons.prems(1) this Cons.prems(3-5)] True show ?thesis
      by (auto split: prod.splits)
  next
    case False
    let ?ts = "pushGuest i g ts"
    have 1: "i < length ?ts" using Cons.prems(1) by simp
    have 2: "length (guestIds (?ts ! i)) + length gs \<le> s"
      using Cons.prems(1,2) by (simp add: nth_pushGuest)
    have 3: "withinCapacity s ?ts"
      using Cons.prems by (intro withinCapacity_pushGuest) auto
    have 4: "mset (seatedIds ?ts) = mset (asg @ [g])"
      using Cons.prems by (simp add: seatedIds_pushGuest)
    have 5: "distinct (asg @ [g])" using Cons.prems False by simp
    from Cons.IH [OF 1 2 3 4 5] False show ?thesis
      by (auto split: prod.splits)
  qed
qed

lemma placeGroup_inv:
  assumes "withinCapacity s (fst st)"
    and "mset (seatedIds (fst st)) = mset (snd st)"
    and "distinct (snd st)"
  shows "length (fst (placeGroup s c st)) = length (fst st)
    \<and> map tableId (fst (placeGroup s c st)) = map tableId (fst st)
    \<and> withinCapacity s (fst (placeGroup s c st))
    \<and> mset (seatedIds (fst (placeGroup s c st))) = mset (snd (placeGroup s c st))
    \<and> distinct (snd (placeGroup s c st))
    \<and> set (snd (placeGroup s c st)) \<subseteq> set (snd st) \<union> set (c_guestIds c)"
proof (cases "findIndex (\<lambda>t. length (guestIds t) + length (c_guestIds c) \<le> s) (fst st)")
  case None
  with assms show ?thesis by (simp add: placeGroup_def)
next
  case (Some i)
  from findIndex_Some [OF Some] have i: "i < length (fst st)"
    "length (guestIds (fst st ! i)) + length (c_guestIds c) \<le> s" by simp_all
  from placeGroup_fold [OF i assms, of ] Some show ?thesis
    by (cases st) (auto simp: placeGroup_def Let_def split: prod.splits)
qed

lemma initTables_props:
  "length (initTables n) = n" "withinCapacity s (initTables n)" "seatedIds (initTables n) = []"
  "map tableId (initTables n) = map (\<lambda>i. ''table_'' @ show_nat (i + 1)) [0..<n]"
  by (simp_all add: initTables_def withinCapacity_def seatedIds_def list_all_iff comp_def)

lemma seatGroups_fold_inv:
  assumes "withinCapacity s (fst st)"
    and "mset (seatedIds (fst st)) = mset (snd st)"
    and "distinct (snd st)"
  shows "length (fst (fold (placeGroup s) cs st)) = length (fst st)
    \<and> map tableId (fst (fold (placeGroup s) cs st)) = map tableId (fst st)
    \<and> withinCapacity s (fst (fold (placeGroup s) cs st))
    \<and> mset (seatedIds (fst (fold (placeGroup s) cs st))) = mset (snd (fold (placeGroup s) cs st))
    \<and> distinct (snd (fold (placeGroup s) cs st))
    \<and> set (snd (fold (placeGroup s) cs st)) \<subseteq> set (snd st) \<union> (\<Union>c\<in>set cs. set (c_guestIds c))"
  using assms
proof (induction cs arbitrary: st)
  case Nil
  then show ?case by simp
next
  case (Cons c cs)
  from placeGroup_inv [OF Cons.prems, of c]
  have p: "length (fst (placeGroup s c st)) = length (fst st)"
    "map tableId (fst (placeGroup s c st)) = map tableId (fst st)"
    "withinCapacity s (fst (placeGroup s c st))"
    "mset (seatedIds (fst (placeGroup s c st))) = mset (snd (placeGroup s c st))"
    "distinct (snd (placeGroup s c st))"
    "set (snd (placeGroup s c st)) \<subseteq> set (snd st) \<union> set (c_guestIds c)" by simp_all
  from Cons.IH [OF p(3,4,5)] p(1,2,6) show ?case by auto
qed

lemma seatGroups_inv:
  "length (fst (seatGroups constraints n s)) = n
   \<and> map tableId (fst (seatGroups constraints n s)) = map (\<lambda>i. ''table_'' @ show_nat (i + 1)) [0..<n]
   \<and> withinCapacity s (fst (seatGroups constraints n s))
   \<and> mset (seatedIds (fst (seatGroups constraints n s))) = mset (snd (seatGroups constraints n s))
   \<and> distinct (snd (seatGroups constraints n s))
   \<and> set (snd (seatGroups constraints n s))
       \<subseteq> (\<Union>c\<in>{c \<in> set constraints. c_type c = MUST_SIT_TOGETHER}. set (c_guestIds c))"
  using seatGroups_fold_inv [of s "(initTables n, [])"
          "filter (\<lambda>c. c_type c = MUST_SIT_TOGETHER) constraints"]
  by (simp add: seatGroups_def initTables_props)


subsection \<open>The shuffle is a permutation\<close>

lemma shuffleFrom_mset:
  "k < length xs \<or> k = 0 \<Longrightarrow> mset (fst (shuffleFrom k s xs)) = mset xs"
proof (induction k arbitrary: s xs)
  case 0
  then show ?case by simp
next
  case (Suc k)
  let ?j = "nat \<lfloor>fst (rng_next s) * real (Suc k + 1)\<rfloor>"
  let ?xs = "xs[Suc k := xs ! ?j, ?j := xs ! Suc k]"
  from Suc.prems have i: "Suc k < length xs" by simp
  from shuffle_index [of s "Suc k"] i have j: "?j < length xs" by linarith
  have m: "mset ?xs = mset xs" using i j by (simp add: mset_swap)
  have "k < length ?xs \<or> k = 0" using i by simp
  from Suc.IH [OF this, of "snd (rng_next s)"] m show ?case
    by (simp add: case_prod_unfold Let_def)
qed

lemma shuffle_mset: "mset (fst (shuffle s xs)) = mset xs"
  unfolding shuffle_def by (rule shuffleFrom_mset) (cases xs, auto)

lemma distinct_sub_mset: "mset xs \<subseteq># mset ys \<Longrightarrow> distinct ys \<Longrightarrow> distinct xs"
proof -
  assume sub: "mset xs \<subseteq># mset ys" and d: "distinct ys"
  have "count (mset xs) a = (if a \<in> set xs then 1 else 0)" for a
  proof (cases "a \<in> set xs")
    case False
    then show ?thesis by (simp add: count_eq_zero_iff)
  next
    case True
    then have "count (mset xs) a \<noteq> 0" by (simp add: count_eq_zero_iff)
    moreover from sub have "count (mset xs) a \<le> count (mset ys) a"
      by (rule mset_subset_eq_count)
    moreover from d have "count (mset ys) a \<le> 1"
      by (simp add: distinct_count_atmost_1)
    ultimately have "count (mset xs) a = 1" by linarith
    then show ?thesis using True by simp
  qed
  then show "distinct xs" by (simp add: distinct_count_atmost_1)
qed

subsection \<open>Round-robin placement\<close>

lemma tryTables_result:
  assumes "tableCount = length ts" and "tableIndex < tableCount \<or> tableCount = 0"
    and "attempts \<le> tableCount"
  shows "case tryTables constraints tableCount s g ts tableIndex attempts of
           (ts', ti', att') \<Rightarrow>
             (ti' < tableCount \<or> tableCount = 0)
             \<and> ((att' = tableCount \<and> ts' = ts)
                \<or> (att' < tableCount \<and> ti' < tableCount \<and> length (guestIds (ts ! ti')) < s
                   \<and> ts' = pushGuest ti' g ts))"
  using assms
proof (induction constraints tableCount s g ts tableIndex attempts rule: tryTables.induct)
  case (1 constraints tableCount s g ts tableIndex attempts)
  show ?case
  proof (cases "attempts < tableCount")
    case False
    with "1.prems" show ?thesis by (simp add: tryTables.simps)
  next
    case True
    show ?thesis
    proof (cases "length (guestIds (ts ! tableIndex)) < s
                  \<and> \<not> hasConflict constraints g (ts ! tableIndex)")
      case yes: True
      with True "1.prems" show ?thesis
        by (subst tryTables.simps) auto
    next
      case no: False
      from True "1.prems" have a: "(tableIndex + 1) mod tableCount < tableCount \<or> tableCount = 0"
        by auto
      from True have b: "attempts + 1 \<le> tableCount" by simp
      have "tryTables constraints tableCount s g ts tableIndex attempts
            = tryTables constraints tableCount s g ts ((tableIndex + 1) mod tableCount) (attempts + 1)"
        using True no by (subst tryTables.simps) auto
      with "1.IH" [OF True no "1.prems"(1) a b] show ?thesis by simp
    qed
  qed
qed

lemma placeGuest_result:
  assumes "tableCount = length ts" and "ti < tableCount \<or> tableCount = 0"
  shows "case placeGuest constraints tableCount s guest (ts, ti) of
           (ts2, ti2) \<Rightarrow>
             (ti2 < tableCount \<or> tableCount = 0)
             \<and> ((ts2 = ts \<and> (\<forall>t\<in>set ts. \<not> length (guestIds t) < s))
                \<or> (\<exists>i<length ts. length (guestIds (ts ! i)) < s
                       \<and> ts2 = pushGuest i (g_id guest) ts))"
proof -
  obtain ts1 ti1 att where r: "tryTables constraints tableCount s (g_id guest) ts ti 0 = (ts1, ti1, att)"
    by (cases "tryTables constraints tableCount s (g_id guest) ts ti 0") auto
  from tryTables_result [where attempts = 0 and constraints = constraints and s = s
      and g = "g_id guest", OF assms] r
  have t: "ti1 < tableCount \<or> tableCount = 0"
    "(att = tableCount \<and> ts1 = ts)
      \<or> (att < tableCount \<and> ti1 < tableCount \<and> length (guestIds (ts ! ti1)) < s
         \<and> ts1 = pushGuest ti1 (g_id guest) ts)" by simp_all
  have idx: "(ti1 + 1) mod tableCount < tableCount \<or> tableCount = 0" by auto
  from t(2) show ?thesis
  proof
    assume a: "att = tableCount \<and> ts1 = ts"
    show ?thesis
    proof (cases "findIndex (\<lambda>t. length (guestIds t) < s) ts")
      case None
      then have "\<forall>t\<in>set ts. \<not> length (guestIds t) < s" by (simp add: findIndex_None)
      with None a r idx show ?thesis
        by (simp add: placeGuest_def)
    next
      case (Some i)
      from findIndex_Some [OF Some] Some a r idx show ?thesis
        by (auto simp: placeGuest_def)
    qed
  next
    assume b: "att < tableCount \<and> ti1 < tableCount \<and> length (guestIds (ts ! ti1)) < s
         \<and> ts1 = pushGuest ti1 (g_id guest) ts"
    with r idx assms(1) show ?thesis
      by (auto simp: placeGuest_def)
  qed
qed

lemma free_seat:
  assumes "withinCapacity s ts" and "length (seatedIds ts) < length ts * s"
  shows "\<exists>t\<in>set ts. length (guestIds t) < s"
proof (rule ccontr)
  assume "\<not> (\<exists>t\<in>set ts. length (guestIds t) < s)"
  then have "\<forall>t\<in>set ts. s \<le> length (guestIds t)" by auto
  then have "length ts * s \<le> length (seatedIds ts)"
    by (induction ts) (auto simp: seatedIds_def)
  with assms show False by simp
qed

lemma placeGuests_fold:
  assumes "length ts = n" and "ti < n \<or> n = 0" and "withinCapacity s ts"
  shows "case fold (placeGuest constraints n s) gs (ts, ti) of
           (ts', ti') \<Rightarrow>
             length ts' = n \<and> map tableId ts' = map tableId ts \<and> withinCapacity s ts'
             \<and> mset (seatedIds ts') \<subseteq># mset (seatedIds ts) + mset (map g_id gs)
             \<and> (length (seatedIds ts) + length gs \<le> n * s \<longrightarrow>
                  mset (seatedIds ts') = mset (seatedIds ts) + mset (map g_id gs))"
  using assms
proof (induction gs arbitrary: ts ti)
  case Nil
  then show ?case by simp
next
  case (Cons g gs)
  obtain ts2 ti2 where r: "placeGuest constraints n s g (ts, ti) = (ts2, ti2)"
    by (cases "placeGuest constraints n s g (ts, ti)") auto
  from placeGuest_result [where tableCount = n and ts = ts and ti = ti
      and constraints = constraints and s = s and guest = g] Cons.prems r
  have ti2: "ti2 < n \<or> n = 0"
    and alt: "(ts2 = ts \<and> (\<forall>t\<in>set ts. \<not> length (guestIds t) < s))
              \<or> (\<exists>i<length ts. length (guestIds (ts ! i)) < s \<and> ts2 = pushGuest i (g_id g) ts)"
    by simp_all
  have len2: "length ts2 = n" using alt Cons.prems(1) by auto
  have ids2: "map tableId ts2 = map tableId ts" using alt by auto
  have cap2: "withinCapacity s ts2"
    using alt Cons.prems(3) by (auto intro: withinCapacity_pushGuest)
  have sub2: "mset (seatedIds ts2) \<subseteq># add_mset (g_id g) (mset (seatedIds ts))"
    using alt by (auto simp: seatedIds_pushGuest)
  have eq2: "mset (seatedIds ts2) = add_mset (g_id g) (mset (seatedIds ts))"
    if "length (seatedIds ts) + length (g # gs) \<le> n * s"
  proof -
    from that have "length (seatedIds ts) < length ts * s" using Cons.prems(1) by simp
    from free_seat [OF Cons.prems(3) this] alt show ?thesis
      by (auto simp: seatedIds_pushGuest)
  qed
  from Cons.IH [OF len2 ti2 cap2]
  obtain ts' ti' where f: "fold (placeGuest constraints n s) gs (ts2, ti2) = (ts', ti')"
    and ih: "length ts' = n" "map tableId ts' = map tableId ts2" "withinCapacity s ts'"
      "mset (seatedIds ts') \<subseteq># mset (seatedIds ts2) + mset (map g_id gs)"
      "length (seatedIds ts2) + length gs \<le> n * s \<longrightarrow>
         mset (seatedIds ts') = mset (seatedIds ts2) + mset (map g_id gs)"
    by (cases "fold (placeGuest constraints n s) gs (ts2, ti2)") auto
  have sub: "mset (seatedIds ts') \<subseteq># mset (seatedIds ts) + mset (map g_id (g # gs))"
  proof -
    from sub2 have "mset (seatedIds ts2) + mset (map g_id gs)
        \<subseteq># add_mset (g_id g) (mset (seatedIds ts)) + mset (map g_id gs)"
      by (rule mset_subset_eq_mono_add) simp
    with ih(4) show ?thesis by (auto intro: subset_mset.order_trans)
  qed
  have eq: "mset (seatedIds ts') = mset (seatedIds ts) + mset (map g_id (g # gs))"
    if h: "length (seatedIds ts) + length (g # gs) \<le> n * s"
  proof -
    from eq2 [OF h] have e: "mset (seatedIds ts2) = add_mset (g_id g) (mset (seatedIds ts))" .
    then have "size (mset (seatedIds ts2)) = Suc (size (mset (seatedIds ts)))" by simp
    then have "length (seatedIds ts2) = Suc (length (seatedIds ts))" by simp
    with h have "length (seatedIds ts2) + length gs \<le> n * s" by simp
    with ih(5) e show ?thesis by simp
  qed
  from r f ih(1,3) ids2 ih(2) sub eq show ?case by auto
qed


subsection \<open>The initial assignment\<close>

lemma createInitialAssignment_shape:
  "\<exists>ts0 asg remaining ts ti.
     seatGroups constraints n s = (ts0, asg)
     \<and> mset remaining = mset (filter (\<lambda>g. g_id g \<notin> set asg) guests)
     \<and> fold (placeGuest constraints n s) remaining (ts0, 0) = (ts, ti)
     \<and> fst (createInitialAssignment guests constraints n s rng) = \<lparr>tables = ts\<rparr>"
proof -
  obtain ts0 asg where a: "seatGroups constraints n s = (ts0, asg)"
    by (cases "seatGroups constraints n s") auto
  obtain remaining rng' where b: "shuffle rng (filter (\<lambda>g. g_id g \<notin> set asg) guests) = (remaining, rng')"
    by (cases "shuffle rng (filter (\<lambda>g. g_id g \<notin> set asg) guests)") auto
  obtain ts ti where c: "fold (placeGuest constraints n s) remaining (ts0, 0) = (ts, ti)"
    by (cases "fold (placeGuest constraints n s) remaining (ts0, 0)") auto
  from shuffle_mset [of rng "filter (\<lambda>g. g_id g \<notin> set asg) guests"] b
  have d: "mset remaining = mset (filter (\<lambda>g. g_id g \<notin> set asg) guests)" by simp
  have e: "fst (createInitialAssignment guests constraints n s rng) = \<lparr>tables = ts\<rparr>"
    using a b c by (simp add: createInitialAssignment_def)
  from a d c e show ?thesis by blast
qed

lemma createInitialAssignment_props:
  fixes guests constraints n s rng
  defines "plan \<equiv> fst (createInitialAssignment guests constraints n s rng)"
  shows "length (tables plan) = n"
    and "map tableId (tables plan) = map (\<lambda>i. ''table_'' @ show_nat (i + 1)) [0..<n]"
    and "withinCapacity s (tables plan)"
    and "distinct (map g_id guests) \<Longrightarrow> distinct (seatedIds (tables plan))"
    and "length guests \<le> n * s \<Longrightarrow>
         (\<forall>c\<in>set constraints. c_type c = MUST_SIT_TOGETHER \<longrightarrow> set (c_guestIds c) \<subseteq> g_id ` set guests)
         \<Longrightarrow> g_id ` set guests \<subseteq> set (seatedIds (tables plan))"
proof -
  from createInitialAssignment_shape [where constraints = constraints and n = n and s = s
      and guests = guests and rng = rng]
  obtain ts0 asg remaining ts ti where
    sg: "seatGroups constraints n s = (ts0, asg)"
    and rem: "mset remaining = mset (filter (\<lambda>g. g_id g \<notin> set asg) guests)"
    and f: "fold (placeGuest constraints n s) remaining (ts0, 0) = (ts, ti)"
    and p: "plan = \<lparr>tables = ts\<rparr>"
    unfolding plan_def by blast
  from seatGroups_inv [of constraints n s] sg
  have g: "length ts0 = n" "map tableId ts0 = map (\<lambda>i. ''table_'' @ show_nat (i + 1)) [0..<n]"
    "withinCapacity s ts0" "mset (seatedIds ts0) = mset asg" "distinct asg"
    "set asg \<subseteq> (\<Union>c\<in>{c \<in> set constraints. c_type c = MUST_SIT_TOGETHER}. set (c_guestIds c))"
    by simp_all
  have "0 < n \<or> n = 0" by auto
  from placeGuests_fold [where constraints = constraints and gs = remaining, OF g(1) this g(3)] f
  have r: "length ts = n" "map tableId ts = map tableId ts0" "withinCapacity s ts"
    "mset (seatedIds ts) \<subseteq># mset (seatedIds ts0) + mset (map g_id remaining)"
    "length (seatedIds ts0) + length remaining \<le> n * s \<longrightarrow>
       mset (seatedIds ts) = mset (seatedIds ts0) + mset (map g_id remaining)"
    by simp_all
  have remIds: "mset (map g_id remaining) = mset (map g_id (filter (\<lambda>g. g_id g \<notin> set asg) guests))"
    using rem by (metis mset_map)
  show "length (tables plan) = n" using r p by simp
  show "map tableId (tables plan) = map (\<lambda>i. ''table_'' @ show_nat (i + 1)) [0..<n]"
    using r g p by simp
  show "withinCapacity s (tables plan)" using r p by simp
  show "distinct (seatedIds (tables plan))" if d: "distinct (map g_id guests)"
  proof -
    have 1: "distinct (asg @ map g_id (filter (\<lambda>g. g_id g \<notin> set asg) guests))"
      using g(5) d by (auto simp: distinct_map_filter)
    have 2: "mset (seatedIds ts) \<subseteq># mset (asg @ map g_id (filter (\<lambda>g. g_id g \<notin> set asg) guests))"
      using r(4) g(4) remIds by simp
    from distinct_sub_mset [OF 2 1] p show ?thesis by simp
  qed
  show "g_id ` set guests \<subseteq> set (seatedIds (tables plan))"
    if cap: "length guests \<le> n * s"
      and known: "\<forall>c\<in>set constraints. c_type c = MUST_SIT_TOGETHER \<longrightarrow>
                    set (c_guestIds c) \<subseteq> g_id ` set guests"
  proof -
    have sub: "set asg \<subseteq> g_id ` set guests" using g(6) known by blast
    have "set asg \<subseteq> g_id ` set (filter (\<lambda>g. g_id g \<in> set asg) guests)"
      using sub by auto
    then have "card (set asg) \<le> card (g_id ` set (filter (\<lambda>g. g_id g \<in> set asg) guests))"
      by (intro card_mono) auto
    also have "\<dots> \<le> card (set (filter (\<lambda>g. g_id g \<in> set asg) guests))"
      by (intro card_image_le) auto
    also have "\<dots> \<le> length (filter (\<lambda>g. g_id g \<in> set asg) guests)"
      by (rule card_length)
    finally have "length asg \<le> length (filter (\<lambda>g. g_id g \<in> set asg) guests)"
      using g(5) by (simp add: distinct_card)
    moreover have "length (filter (\<lambda>g. g_id g \<in> set asg) guests)
                   + length (filter (\<lambda>g. g_id g \<notin> set asg) guests) = length guests"
      by (rule sum_length_filter_compl)
    moreover have "length remaining = length (filter (\<lambda>g. g_id g \<notin> set asg) guests)"
      using rem by (metis size_mset)
    moreover have "length (seatedIds ts0) = length asg"
      using g(4) by (metis size_mset)
    ultimately have "length (seatedIds ts0) + length remaining \<le> n * s"
      using cap by linarith
    with r(5) have "mset (seatedIds ts) = mset (seatedIds ts0) + mset (map g_id remaining)"
      by simp
    then have "set (seatedIds ts) = set asg \<union> g_id ` set (filter (\<lambda>g. g_id g \<notin> set asg) guests)"
      using g(4) remIds by (metis mset_append set_append set_map mset_eq_setD)
    then show ?thesis using p by auto
  qed
qed


subsection \<open>The repair pass\<close>

lemma alternativeTable_Some:
  "alternativeTable s c ti ts = Some a \<Longrightarrow>
   a < length ts \<and> a \<noteq> ti \<and> length (guestIds (ts ! a)) < s"
proof -
  assume "alternativeTable s c ti ts = Some a"
  from findIndex_Some [OF this [unfolded alternativeTable_def]]
  have "a < length ts"
    and "(\<lambda>(i, t). i \<noteq> ti \<and> length (guestIds t) < s
                    \<and> \<not> list_ex (\<lambda>g. g \<in> set (c_guestIds c)) (guestIds t))
           (List.enumerate 0 ts ! a)"
    by simp_all
  then show ?thesis by (simp add: nth_enumerate_eq)
qed

lemma mset_move_aux:
  fixes A B R S :: "'a multiset"
  shows "A + B = S + R \<Longrightarrow> B = add_mset g R \<Longrightarrow> add_mset g A = S"
  by simp

lemma relocate_step:
  assumes ti: "ti < length ts" and g: "g \<in> set (guestIds (ts ! ti))"
    and cap: "withinCapacity s ts"
    and a: "a < length ts" "a \<noteq> ti" "length (guestIds (ts ! a)) < s"
  defines "ts' \<equiv> pushGuest a g (ts[ti := (ts ! ti)\<lparr>guestIds := remove1 g (guestIds (ts ! ti))\<rparr>])"
  shows "length ts' = length ts" and "map tableId ts' = map tableId ts"
    and "withinCapacity s ts'" and "mset (seatedIds ts') = mset (seatedIds ts)"
    and "guestIds (ts' ! ti) = remove1 g (guestIds (ts ! ti))"
proof -
  let ?t = "(ts ! ti)\<lparr>guestIds := remove1 g (guestIds (ts ! ti))\<rparr>"
  let ?ts1 = "ts[ti := ?t]"
  show "length ts' = length ts" by (simp add: ts'_def)
  have "map tableId ?ts1 = map tableId ts"
    by (simp add: map_update) (metis list_update_id map_update)
  then show "map tableId ts' = map tableId ts" by (simp add: ts'_def)
  have "set ?ts1 \<subseteq> insert ?t (set ts)" by (rule set_update_subset_insert)
  moreover have "length (guestIds ?t) \<le> s"
    using cap ti by (auto simp: withinCapacity_iff length_remove1 intro: le_trans [OF diff_le_self])
  ultimately have cap1: "withinCapacity s ?ts1" using cap by (auto simp: withinCapacity_iff)
  have "length (guestIds (?ts1 ! a)) < s" using a by simp
  with cap1 show "withinCapacity s ts'"
    unfolding ts'_def by (intro withinCapacity_pushGuest) simp_all
  from seatedIds_update [OF ti, of ?t]
  have "mset (seatedIds ?ts1) + mset (guestIds (ts ! ti))
        = mset (seatedIds ts) + mset (remove1 g (guestIds (ts ! ti)))" by simp
  moreover have "mset (guestIds (ts ! ti)) = add_mset g (mset (remove1 g (guestIds (ts ! ti))))"
    using g by simp
  ultimately have "add_mset g (mset (seatedIds ?ts1)) = mset (seatedIds ts)"
    by (rule mset_move_aux)
  then show "mset (seatedIds ts') = mset (seatedIds ts)"
    using a(1) by (simp add: ts'_def seatedIds_pushGuest)
  show "guestIds (ts' ! ti) = remove1 g (guestIds (ts ! ti))"
    using ti a by (simp add: ts'_def nth_pushGuest)
qed

lemma relocate_inv:
  assumes "ti < length ts" and "mset cg \<subseteq># mset (guestIds (ts ! ti))" and "withinCapacity s ts"
  shows "length (relocate s c ti cg ts) = length ts
    \<and> map tableId (relocate s c ti cg ts) = map tableId ts
    \<and> withinCapacity s (relocate s c ti cg ts)
    \<and> mset (seatedIds (relocate s c ti cg ts)) = mset (seatedIds ts)"
  using assms
proof (induction s c ti cg ts rule: relocate.induct)
  case (1 s c ti cg ts)
  show ?case
  proof (cases "length cg > 1")
    case False
    with "1.prems" show ?thesis by (simp add: relocate.simps)
  next
    case True
    define g where "g = last cg"
    define gi where "gi = findIndex (\<lambda>x. x = g) (guestIds (ts ! ti))"
    define ts' where "ts' = (case alternativeTable s c ti ts of
                    None \<Rightarrow> ts
                  | Some a \<Rightarrow>
                      pushGuest a g
                        (ts[ti := (ts ! ti)\<lparr>guestIds := splice1 gi (guestIds (ts ! ti))\<rparr>]))"
    from True have ne: "cg \<noteq> []" by auto
    have "mset (butlast cg @ [last cg]) = add_mset (last cg) (mset (butlast cg))" by simp
    then have cgsplit: "mset cg = add_mset g (mset (butlast cg))"
      unfolding g_def append_butlast_last_id [OF ne] .
    from ne have "g \<in> set cg" by (simp add: g_def)
    with "1.prems"(2) have gin: "g \<in> set (guestIds (ts ! ti))"
      by (metis mset_subset_eqD set_mset_mset)
    from findIndex_eq [OF gin] have sp: "splice1 gi (guestIds (ts ! ti)) = remove1 g (guestIds (ts ! ti))"
      by (auto simp: gi_def)
    have unfold: "relocate s c ti cg ts = relocate s c ti (butlast cg) ts'"
      unfolding ts'_def gi_def g_def using True by (subst relocate.simps) (simp add: Let_def)
    have props: "length ts' = length ts \<and> map tableId ts' = map tableId ts
        \<and> withinCapacity s ts' \<and> mset (seatedIds ts') = mset (seatedIds ts)
        \<and> mset (butlast cg) \<subseteq># mset (guestIds (ts' ! ti))"
    proof (cases "alternativeTable s c ti ts")
      case None
      have "mset (butlast cg) \<subseteq># mset cg" unfolding cgsplit by simp
      with "1.prems" None show ?thesis
        by (auto simp: ts'_def intro: subset_mset.order_trans)
    next
      case (Some a)
      from alternativeTable_Some [OF Some] have a: "a < length ts" "a \<noteq> ti"
        "length (guestIds (ts ! a)) < s" by simp_all
      have e: "ts' = pushGuest a g (ts[ti := (ts ! ti)\<lparr>guestIds := remove1 g (guestIds (ts ! ti))\<rparr>])"
        using Some sp by (simp add: ts'_def)
      note st = relocate_step [OF "1.prems"(1) gin "1.prems"(3) a, folded e]
      have "add_mset g (mset (butlast cg)) \<subseteq># add_mset g (mset (remove1 g (guestIds (ts ! ti))))"
        using "1.prems"(2) gin unfolding cgsplit [symmetric] by simp
      then have "mset (butlast cg) \<subseteq># mset (guestIds (ts' ! ti))"
        unfolding st(5) by (simp del: mset_remove1)
      with st show ?thesis by simp
    qed
    then have p: "ti < length ts'" "mset (butlast cg) \<subseteq># mset (guestIds (ts' ! ti))"
      "withinCapacity s ts'" using "1.prems"(1) by simp_all
    from "1.IH" [OF True g_def gi_def p [unfolded ts'_def]] props unfold
    show ?thesis by (simp add: ts'_def)
  qed
qed

lemma repairTable_inv:
  assumes "ti < length ts" and "withinCapacity s ts"
  shows "length (repairTable s c ti ts) = length ts
    \<and> map tableId (repairTable s c ti ts) = map tableId ts
    \<and> withinCapacity s (repairTable s c ti ts)
    \<and> mset (seatedIds (repairTable s c ti ts)) = mset (seatedIds ts)"
  unfolding repairTable_def
  by (rule relocate_inv [OF assms(1) _ assms(2)]) simp

lemma repairTables_fold:
  assumes "\<forall>ti\<in>set tis. ti < length ts" and "withinCapacity s ts"
  shows "length (fold (repairTable s c) tis ts) = length ts
    \<and> map tableId (fold (repairTable s c) tis ts) = map tableId ts
    \<and> withinCapacity s (fold (repairTable s c) tis ts)
    \<and> mset (seatedIds (fold (repairTable s c) tis ts)) = mset (seatedIds ts)"
  using assms
proof (induction tis arbitrary: ts)
  case Nil
  then show ?case by simp
next
  case (Cons ti tis)
  from Cons.prems have ti: "ti < length ts" by simp
  note r = repairTable_inv [OF ti Cons.prems(2), of c]
  from Cons.prems r have "\<forall>j\<in>set tis. j < length (repairTable s c ti ts)" by simp
  from Cons.IH [OF this] r show ?case by simp
qed

lemma repairAssignment_inv:
  assumes "withinCapacity s (tables plan)"
  shows "length (tables (repairAssignment plan constraints guests n s rng)) = length (tables plan)
    \<and> map tableId (tables (repairAssignment plan constraints guests n s rng)) = map tableId (tables plan)
    \<and> withinCapacity s (tables (repairAssignment plan constraints guests n s rng))
    \<and> mset (seatedIds (tables (repairAssignment plan constraints guests n s rng)))
        = mset (seatedIds (tables plan))"
proof -
  have "length (fold (\<lambda>c ts. fold (repairTable s c) [0..<length ts] ts) cs ts) = length ts
    \<and> map tableId (fold (\<lambda>c ts. fold (repairTable s c) [0..<length ts] ts) cs ts) = map tableId ts
    \<and> withinCapacity s (fold (\<lambda>c ts. fold (repairTable s c) [0..<length ts] ts) cs ts)
    \<and> mset (seatedIds (fold (\<lambda>c ts. fold (repairTable s c) [0..<length ts] ts) cs ts))
        = mset (seatedIds ts)"
    if "withinCapacity s ts" for cs ts
    using that
  proof (induction cs arbitrary: ts)
    case Nil
    then show ?case by simp
  next
    case (Cons c cs)
    have "\<forall>ti\<in>set [0..<length ts]. ti < length ts" by simp
    note r = repairTables_fold [OF this Cons.prems, of c]
    from Cons.IH [of "fold (repairTable s c) [0..<length ts] ts"] r show ?case by simp
  qed
  from this [OF assms] show ?thesis by (simp add: repairAssignment_def)
qed

subsection \<open>Swaps and moves\<close>

lemma mset_swap_aux:
  fixes S0 S1 S2 X X' Y Y' :: "'a multiset"
  assumes "S1 + X = S0 + X'" and "S2 + Y = S1 + Y'"
    and "add_mset x X' = add_mset y X" and "add_mset y Y' = add_mset x Y"
  shows "S2 = S0"
proof -
  have "S2 + Y + X = S0 + X' + Y'"
    using assms(1,2) by (metis (no_types, lifting) add.assoc add.commute)
  then have "add_mset x (add_mset y (S2 + Y + X)) = S0 + add_mset x X' + add_mset y Y'"
    by simp
  also have "\<dots> = S0 + add_mset y X + add_mset x Y" unfolding assms(3,4) ..
  finally show ?thesis by simp
qed

lemma map_update_id: "(map f xs)[i := f (xs ! i)] = map f xs"
  by (metis list_update_id map_update)

lemma mset_list_update:
  "i < length xs \<Longrightarrow> add_mset (xs ! i) (mset (xs[i := y])) = add_mset y (mset xs)"
  by (simp add: mset_update)

lemma swapGuests_props:
  assumes "t1 < t2" and "t2 < length (tables plan)"
    and "g1 < length (guestIds (tables plan ! t1))" and "g2 < length (guestIds (tables plan ! t2))"
  shows "length (tables (swapGuests plan t1 g1 t2 g2)) = length (tables plan)"
    and "map tableId (tables (swapGuests plan t1 g1 t2 g2)) = map tableId (tables plan)"
    and "map (\<lambda>t. length (guestIds t)) (tables (swapGuests plan t1 g1 t2 g2))
           = map (\<lambda>t. length (guestIds t)) (tables plan)"
    and "mset (seatedIds (tables (swapGuests plan t1 g1 t2 g2))) = mset (seatedIds (tables plan))"
proof -
  let ?ts = "tables plan"
  let ?xs = "guestIds (?ts ! t1)" and ?ys = "guestIds (?ts ! t2)"
  let ?A = "(?ts ! t1)\<lparr>guestIds := ?xs[g1 := ?ys ! g2]\<rparr>"
  let ?ts1 = "?ts[t1 := ?A]"
  let ?B = "(?ts ! t2)\<lparr>guestIds := ?ys[g2 := ?xs ! g1]\<rparr>"
  let ?ts2 = "?ts1[t2 := ?B]"
  have t1: "t1 < length ?ts" using assms by simp
  have e: "tables (swapGuests plan t1 g1 t2 g2) = ?ts2"
    using assms by (simp add: swapGuests_def Let_def)
  show "length (tables (swapGuests plan t1 g1 t2 g2)) = length ?ts" by (simp add: e)
  have "map tableId ?ts2 = (map tableId ?ts)[t1 := tableId (?ts ! t1), t2 := tableId (?ts ! t2)]"
    by (simp add: map_update)
  also have "\<dots> = map tableId ?ts"
    by (simp add: map_update_id)
  finally show "map tableId (tables (swapGuests plan t1 g1 t2 g2)) = map tableId ?ts"
    by (simp add: e)
  have "map (\<lambda>t. length (guestIds t)) ?ts2
        = (map (\<lambda>t. length (guestIds t)) ?ts)[t1 := length ?xs, t2 := length ?ys]"
    by (simp add: map_update)
  also have "\<dots> = map (\<lambda>t. length (guestIds t)) ?ts"
    by (simp add: map_update_id [of "\<lambda>t. length (guestIds t)"])
  finally show "map (\<lambda>t. length (guestIds t)) (tables (swapGuests plan t1 g1 t2 g2))
           = map (\<lambda>t. length (guestIds t)) ?ts"
    by (simp add: e)
  have 1: "mset (seatedIds ?ts1) + mset ?xs = mset (seatedIds ?ts) + mset (?xs[g1 := ?ys ! g2])"
    using seatedIds_update [OF t1, of ?A] by simp
  have "mset (seatedIds ?ts2) + mset (guestIds (?ts1 ! t2))
        = mset (seatedIds ?ts1) + mset (guestIds ?B)"
    using seatedIds_update [of t2 ?ts1 ?B] assms(2) by simp
  then have 2: "mset (seatedIds ?ts2) + mset ?ys = mset (seatedIds ?ts1) + mset (?ys[g2 := ?xs ! g1])"
    using assms(1) by simp
  have 3: "add_mset (?xs ! g1) (mset (?xs[g1 := ?ys ! g2])) = add_mset (?ys ! g2) (mset ?xs)"
    using assms(3) by (rule mset_list_update)
  have 4: "add_mset (?ys ! g2) (mset (?ys[g2 := ?xs ! g1])) = add_mset (?xs ! g1) (mset ?ys)"
    using assms(4) by (rule mset_list_update)
  from mset_swap_aux [OF 1 2 3 4]
  show "mset (seatedIds (tables (swapGuests plan t1 g1 t2 g2))) = mset (seatedIds ?ts)"
    by (simp add: e)
qed

lemma moveGuest_props:
  assumes "t1 \<noteq> t2" and "t1 < length (tables plan)" and "t2 < length (tables plan)"
    and "g < length (guestIds (tables plan ! t1))"
  shows "length (tables (moveGuest plan t1 g t2)) = length (tables plan)"
    and "map tableId (tables (moveGuest plan t1 g t2)) = map tableId (tables plan)"
    and "mset (seatedIds (tables (moveGuest plan t1 g t2))) = mset (seatedIds (tables plan))"
    and "withinCapacity s (tables plan) \<Longrightarrow> length (guestIds (tables plan ! t2)) < s \<Longrightarrow>
         withinCapacity s (tables (moveGuest plan t1 g t2))"
proof -
  let ?ts = "tables plan"
  let ?xs = "guestIds (?ts ! t1)"
  let ?A = "(?ts ! t1)\<lparr>guestIds := splice1 (Some g) ?xs\<rparr>"
  let ?ts1 = "?ts[t1 := ?A]"
  have e: "tables (moveGuest plan t1 g t2) = pushGuest t2 (?xs ! g) ?ts1"
    by (simp add: moveGuest_def Let_def)
  show "length (tables (moveGuest plan t1 g t2)) = length ?ts" by (simp add: e)
  have "map tableId ?ts1 = map tableId ?ts"
    by (simp add: map_update map_update_id)
  then show "map tableId (tables (moveGuest plan t1 g t2)) = map tableId ?ts" by (simp add: e)
  have sp: "add_mset (?xs ! g) (mset (splice1 (Some g) ?xs)) = mset ?xs"
  proof -
    have "mset ?xs = mset (take g ?xs @ ?xs ! g # drop (Suc g) ?xs)"
      using id_take_nth_drop [OF assms(4)] by simp
    then show ?thesis by (simp add: splice1_def)
  qed
  have "mset (seatedIds ?ts1) + mset ?xs = mset (seatedIds ?ts) + mset (splice1 (Some g) ?xs)"
    using seatedIds_update [OF assms(2), of ?A] by simp
  from mset_move_aux [OF this sp [symmetric]]
  show "mset (seatedIds (tables (moveGuest plan t1 g t2))) = mset (seatedIds ?ts)"
    using assms(3) by (simp add: e seatedIds_pushGuest)
  show "withinCapacity s (tables (moveGuest plan t1 g t2))"
    if cap: "withinCapacity s ?ts" and room: "length (guestIds (?ts ! t2)) < s"
  proof -
    have "length (splice1 (Some g) ?xs) \<le> length ?xs" by (simp add: splice1_def)
    moreover have "length ?xs \<le> s" using cap assms(2) by (simp add: withinCapacity_iff)
    ultimately have "length (guestIds ?A) \<le> s" by simp
    moreover have "set ?ts1 \<subseteq> insert ?A (set ?ts)" by (rule set_update_subset_insert)
    ultimately have "withinCapacity s ?ts1" using cap by (auto simp: withinCapacity_iff)
    moreover have "length (guestIds (?ts1 ! t2)) < s" using assms(1) room by simp
    ultimately show ?thesis unfolding e by (intro withinCapacity_pushGuest) simp_all
  qed
qed

lemma swapCandidates_mem:
  "p \<in> set (swapCandidates plan) \<Longrightarrow>
   \<exists>t1 t2 g1 g2. t1 < t2 \<and> t2 < length (tables plan)
      \<and> g1 < length (guestIds (tables plan ! t1)) \<and> g2 < length (guestIds (tables plan ! t2))
      \<and> p = swapGuests plan t1 g1 t2 g2"
  by (auto simp: swapCandidates_def Let_def Suc_le_eq) blast

lemma moveCandidates_mem:
  "p \<in> set (moveCandidates plan s) \<Longrightarrow>
   \<exists>t1 t2 g. t1 \<noteq> t2 \<and> t1 < length (tables plan) \<and> t2 < length (tables plan)
      \<and> length (guestIds (tables plan ! t2)) < s
      \<and> g < length (guestIds (tables plan ! t1)) \<and> p = moveGuest plan t1 g t2"
  by (auto simp: moveCandidates_def Let_def not_le) blast

lemma acceptedStep_inv:
  assumes "acceptedStep constraints guests weights s plan newPlan"
  shows "length (tables newPlan) = length (tables plan)"
    and "map tableId (tables newPlan) = map tableId (tables plan)"
    and "mset (seatedIds (tables newPlan)) = mset (seatedIds (tables plan))"
    and "withinCapacity s (tables plan) \<Longrightarrow> withinCapacity s (tables newPlan)"
proof -
  from assms have "newPlan \<in> set (swapCandidates plan) \<or> newPlan \<in> set (moveCandidates plan s)"
    by (auto simp: acceptedStep_def)
  then have "length (tables newPlan) = length (tables plan)
      \<and> map tableId (tables newPlan) = map tableId (tables plan)
      \<and> mset (seatedIds (tables newPlan)) = mset (seatedIds (tables plan))
      \<and> (withinCapacity s (tables plan) \<longrightarrow> withinCapacity s (tables newPlan))"
  proof
    assume "newPlan \<in> set (swapCandidates plan)"
    from swapCandidates_mem [OF this] obtain t1 t2 g1 g2 where
      i: "t1 < t2" "t2 < length (tables plan)" "g1 < length (guestIds (tables plan ! t1))"
        "g2 < length (guestIds (tables plan ! t2))" and p: "newPlan = swapGuests plan t1 g1 t2 g2"
      by blast
    note sw = swapGuests_props [OF i]
    have "withinCapacity s (tables newPlan)" if "withinCapacity s (tables plan)"
    proof -
      have "list_all (\<lambda>n. n \<le> s) (map (\<lambda>t. length (guestIds t)) (tables plan))"
        using that by (simp add: withinCapacity_def list_all_iff)
      then have "list_all (\<lambda>n. n \<le> s) (map (\<lambda>t. length (guestIds t)) (tables newPlan))"
        unfolding p sw(3) .
      then show ?thesis by (simp add: withinCapacity_def list_all_iff)
    qed
    with sw show ?thesis unfolding p by simp
  next
    assume "newPlan \<in> set (moveCandidates plan s)"
    from moveCandidates_mem [OF this] obtain t1 t2 g where
      i: "t1 \<noteq> t2" "t1 < length (tables plan)" "t2 < length (tables plan)"
        "g < length (guestIds (tables plan ! t1))"
      and room: "length (guestIds (tables plan ! t2)) < s" and p: "newPlan = moveGuest plan t1 g t2"
      by blast
    from moveGuest_props [OF i] room show ?thesis unfolding p by simp
  qed
  then show "length (tables newPlan) = length (tables plan)"
    and "map tableId (tables newPlan) = map tableId (tables plan)"
    and "mset (seatedIds (tables newPlan)) = mset (seatedIds (tables plan))"
    and "withinCapacity s (tables plan) \<Longrightarrow> withinCapacity s (tables newPlan)"
    by simp_all
qed

subsection \<open>The local search\<close>

lemma firstImproving_Some:
  "firstImproving cs gs w m cands = Some (p', m') \<Longrightarrow>
   p' \<in> set cands \<and> valid (validateConstraints p' cs gs)
   \<and> m' = calculateAllMetrics p' gs w \<and> weighted m < weighted m'"
  by (induction cands) (auto split: if_splits)

lemma improve_Some:
  assumes "improve cs gs w s plan (calculateAllMetrics plan gs w) = Some (p', m')"
  shows "acceptedStep cs gs w s plan p' \<and> m' = calculateAllMetrics p' gs w"
proof (cases "firstImproving cs gs w (calculateAllMetrics plan gs w) (swapCandidates plan)")
  case None
  with assms have "firstImproving cs gs w (calculateAllMetrics plan gs w) (moveCandidates plan s)
                   = Some (p', m')"
    by (simp add: improve_def)
  from firstImproving_Some [OF this] show ?thesis by (auto simp: acceptedStep_def)
next
  case (Some r)
  with assms have "firstImproving cs gs w (calculateAllMetrics plan gs w) (swapCandidates plan)
                   = Some (p', m')"
    by (simp add: improve_def)
  from firstImproving_Some [OF this] show ?thesis by (auto simp: acceptedStep_def)
qed

lemma localSearch_steps:
  assumes "metrics = calculateAllMetrics plan guests weights"
  shows "case localSearch cs guests weights s maxIt plan metrics it of
           (p', m', it') \<Rightarrow>
             (acceptedStep cs guests weights s)\<^sup>*\<^sup>* plan p'
             \<and> m' = calculateAllMetrics p' guests weights
             \<and> it \<le> it' \<and> it' \<le> max it maxIt"
  using assms
proof (induction cs guests weights s maxIt plan metrics it rule: localSearch.induct)
  case (1 cs guests weights s maxIt plan metrics it)
  show ?case
  proof (cases "it < maxIt")
    case False
    with "1.prems" show ?thesis by (subst localSearch.simps) simp
  next
    case True
    show ?thesis
    proof (cases "improve cs guests weights s plan metrics")
      case None
      with True "1.prems" show ?thesis by (subst localSearch.simps) simp
    next
      case (Some r)
      obtain p1 m1 where r: "r = (p1, m1)" by (cases r) auto
      from Some r "1.prems" improve_Some [of cs guests weights s plan p1 m1]
      have st: "acceptedStep cs guests weights s plan p1"
        and m1: "m1 = calculateAllMetrics p1 guests weights" by simp_all
      have e: "localSearch cs guests weights s maxIt plan metrics it
               = localSearch cs guests weights s maxIt p1 m1 (it + 1)"
        using True Some r by (subst localSearch.simps) simp
      from "1.IH" [OF True Some r [symmetric] m1]
      obtain p' m' it' where
        l: "localSearch cs guests weights s maxIt p1 m1 (it + 1) = (p', m', it')"
        and ih: "(acceptedStep cs guests weights s)\<^sup>*\<^sup>* p1 p'"
          "m' = calculateAllMetrics p' guests weights" "it + 1 \<le> it'" "it' \<le> max (it + 1) maxIt"
        by (cases "localSearch cs guests weights s maxIt p1 m1 (it + 1)") auto
      from st ih(1) have "(acceptedStep cs guests weights s)\<^sup>*\<^sup>* plan p'"
        by (rule converse_rtranclp_into_rtranclp)
      with e l ih True show ?thesis by simp
    qed
  qed
qed

lemma steps_inv:
  assumes "(acceptedStep cs guests weights s)\<^sup>*\<^sup>* plan p'"
  shows "length (tables p') = length (tables plan)
    \<and> map tableId (tables p') = map tableId (tables plan)
    \<and> mset (seatedIds (tables p')) = mset (seatedIds (tables plan))
    \<and> (withinCapacity s (tables plan) \<longrightarrow> withinCapacity s (tables p'))
    \<and> weighted (calculateAllMetrics plan guests weights)
        \<le> weighted (calculateAllMetrics p' guests weights)
    \<and> (p' \<noteq> plan \<longrightarrow> weighted (calculateAllMetrics plan guests weights)
                        < weighted (calculateAllMetrics p' guests weights))"
  using assms
proof (induction rule: rtranclp_induct)
  case base
  then show ?case by simp
next
  case (step y z)
  from acceptedStep_inv [OF step.hyps(2)] step.hyps(2) step.IH show ?case
    by (auto simp: acceptedStep_def)
qed

subsection \<open>The plan before the search\<close>

lemma initialPlan_props:
  fixes guests constraints config
  defines "p0 \<equiv> initialPlan guests constraints config"
  shows "length (tables p0) = cfg_tableCount config"
    and "map tableId (tables p0) = map (\<lambda>i. ''table_'' @ show_nat (i + 1)) [0..<cfg_tableCount config]"
    and "withinCapacity (cfg_seatsPerTable config) (tables p0)"
    and "distinct (map g_id guests) \<Longrightarrow> distinct (seatedIds (tables p0))"
    and "length guests \<le> cfg_tableCount config * cfg_seatsPerTable config \<Longrightarrow>
         (\<forall>c\<in>set constraints. c_type c = MUST_SIT_TOGETHER \<longrightarrow> set (c_guestIds c) \<subseteq> g_id ` set guests)
         \<Longrightarrow> g_id ` set guests \<subseteq> set (seatedIds (tables p0))"
proof -
  let ?n = "cfg_tableCount config" and ?s = "cfg_seatsPerTable config"
  obtain plan rng where c: "createInitialAssignment guests constraints ?n ?s (seedOf config) = (plan, rng)"
    by (cases "createInitialAssignment guests constraints ?n ?s (seedOf config)") auto
  then have plan: "plan = fst (createInitialAssignment guests constraints ?n ?s (seedOf config))"
    by simp
  note ci = createInitialAssignment_props [where guests = guests and constraints = constraints
      and n = ?n and s = ?s and rng = "seedOf config", folded plan]
  note rp = repairAssignment_inv [where constraints = constraints and guests = guests
      and n = ?n and rng = rng, OF ci(3)]
  have p0: "p0 = plan \<or> p0 = repairAssignment plan constraints guests ?n ?s rng"
    using c by (simp add: p0_def initialPlan_def)
  have m: "mset (seatedIds (tables p0)) = mset (seatedIds (tables plan))"
    using p0 rp by auto
  show "length (tables p0) = ?n" using p0 rp ci(1) by auto
  show "map tableId (tables p0) = map (\<lambda>i. ''table_'' @ show_nat (i + 1)) [0..<?n]"
    using p0 rp ci(2) by auto
  show "withinCapacity ?s (tables p0)" using p0 rp ci(3) by auto
  show "distinct (seatedIds (tables p0))" if "distinct (map g_id guests)"
    using ci(4) [OF that] mset_eq_imp_distinct_iff [OF m] by simp
  show "g_id ` set guests \<subseteq> set (seatedIds (tables p0))"
    if "length guests \<le> ?n * ?s"
      and "\<forall>c\<in>set constraints. c_type c = MUST_SIT_TOGETHER \<longrightarrow> set (c_guestIds c) \<subseteq> g_id ` set guests"
    using ci(5) [OF that] mset_eq_setD [OF m] by simp
qed

lemma optimize_feasible:
  assumes "feasible (checkFeasibility guests constraints (cfg_tableCount config) (cfg_seatsPerTable config))"
  shows "(acceptedStep constraints guests weights (cfg_seatsPerTable config))\<^sup>*\<^sup>*
           (initialPlan guests constraints config) (r_plan (optimize guests constraints weights config))"
    and "r_metrics (optimize guests constraints weights config)
           = calculateAllMetrics (r_plan (optimize guests constraints weights config)) guests weights"
    and "r_iterations (optimize guests constraints weights config) \<le> maxIterationsOf config"
proof -
  let ?p0 = "initialPlan guests constraints config"
  let ?ls = "localSearch constraints guests weights (cfg_seatsPerTable config)
               (maxIterationsOf config) ?p0 (calculateAllMetrics ?p0 guests weights) 0"
  obtain p m it where l: "?ls = (p, m, it)" by (cases ?ls) auto
  from localSearch_steps [where cs = constraints and s = "cfg_seatsPerTable config"
      and maxIt = "maxIterationsOf config" and it = 0 and plan = ?p0 and guests = guests
      and weights = weights, OF refl] l
  have "(acceptedStep constraints guests weights (cfg_seatsPerTable config))\<^sup>*\<^sup>* ?p0 p"
    "m = calculateAllMetrics p guests weights" "it \<le> maxIterationsOf config" by simp_all
  moreover have "r_plan (optimize guests constraints weights config) = p"
    "r_metrics (optimize guests constraints weights config) = m"
    "r_iterations (optimize guests constraints weights config) = it"
    using assms l by (simp_all add: optimize_def Let_def)
  ultimately show "(acceptedStep constraints guests weights (cfg_seatsPerTable config))\<^sup>*\<^sup>*
           ?p0 (r_plan (optimize guests constraints weights config))"
    and "r_metrics (optimize guests constraints weights config)
           = calculateAllMetrics (r_plan (optimize guests constraints weights config)) guests weights"
    and "r_iterations (optimize guests constraints weights config) \<le> maxIterationsOf config"
    by simp_all
qed

lemma optimize_infeasible_plan:
  "\<not> feasible (checkFeasibility guests constraints (cfg_tableCount config) (cfg_seatsPerTable config))
   \<Longrightarrow> tables (r_plan (optimize guests constraints weights config)) = []"
  by (simp add: optimize_def Let_def createInfeasibleResult_def)

subsection \<open>A run, step by step\<close>

text \<open>
  One buyer and one seller, two tables of two seats, no constraints, equal weights and
  the default seed. The first draw of the generator is \<open>1250496027 / 0x7fffffff\<close>, the
  shuffle leaves the two guests in order, and the round robin seats them apart. No swap
  improves the score; moving the buyer to the seller's table raises it from 9/20 to
  11/16; after that no swap or move improves it, and the search stops in its second turn.
\<close>

lemma rng_next_42: "rng_next 42 = (1250496027 / 2147483647, 1250496027)"
  by (simp add: rng_next_def nextSeed_def roundDouble_def)

lemma shuffle_two: "shuffle 42 [x, y] = ([x, y], 1250496027)"
  by (simp add: shuffle_def rng_next_42)

lemma initTables_two: "initTables 2 = [exTable ''table_1'' [], exTable ''table_2'' []]"
  by code_simp

lemma example_initial_assignment:
  "createInitialAssignment buyerAndSeller [] 2 2 42 = (apartPlan, 1250496027)"
  by (simp add: createInitialAssignment_def seatGroups_def initTables_two shuffle_two
      placeGuest_def tryTables.simps pushGuest_def hasConflict_def mustNotSitWith_def
      buyerAndSeller_def exGuest_def apartPlan_def exTable_def)

lemma example_initialPlan: "initialPlan buyerAndSeller [] (exConfig 2 2) = apartPlan"
  by (simp add: initialPlan_def exConfig_def seedOf_def example_initial_assignment
      validateConstraints_def)

lemma example_initial_metrics:
  "calculateAllMetrics apartPlan buyerAndSeller equalWeights
     = \<lparr>novelty = 1, diversity = 0, balance = 1 / 2, transaction = 3 / 10, weighted = 9 / 20\<rparr>"
  by code_simp

lemma example_search:
  "localSearch [] buyerAndSeller equalWeights 2 1000 apartPlan
     (calculateAllMetrics apartPlan buyerAndSeller equalWeights) 0
   = (togetherPlan,
      \<lparr>novelty = 1, diversity = 0, balance = 3 / 4, transaction = 1, weighted = 11 / 16\<rparr>, 2)"
  by code_simp

lemma example_step: "acceptedStep [] buyerAndSeller equalWeights 2 apartPlan togetherPlan"
  by code_simp

lemma example_codes:
  "map rc_code (reasonCodes (generateExplanations togetherPlan buyerAndSeller m [])) = [''BUYER_SELLER_MIX'']"
  by (simp add: generateExplanations_def tableCodes_def companyCodes_def departmentCodes_def
      seniorityCodes_def dynamicsCodes_def groupCodes_def tableGuestsOf_def guestMapOf_def
      buyerAndSeller_def exGuest_def togetherPlan_def exTable_def List.map_filter_def
      newSet_def truthyValues_def definedValues_def truthy_def mkCode_def Let_def)

lemma example_run:
  "r_plan (optimize buyerAndSeller [] equalWeights (exConfig 2 2)) = togetherPlan
   \<and> r_metrics (optimize buyerAndSeller [] equalWeights (exConfig 2 2))
       = \<lparr>novelty = 1, diversity = 0, balance = 3 / 4, transaction = 1, weighted = 11 / 16\<rparr>
   \<and> r_feasible (optimize buyerAndSeller [] equalWeights (exConfig 2 2))
   \<and> r_iterations (optimize buyerAndSeller [] equalWeights (exConfig 2 2)) = 2
   \<and> map rc_code (reasonCodes (r_explanations (optimize buyerAndSeller [] equalWeights (exConfig 2 2))))
       = [''BUYER_SELLER_MIX'']"
proof -
  have f: "feasible (checkFeasibility buyerAndSeller [] 2 2)"
    by (simp add: checkFeasibility_def buyerAndSeller_def)
  have cfg: "cfg_tableCount (exConfig 2 2) = 2" "cfg_seatsPerTable (exConfig 2 2) = 2"
    "maxIterationsOf (exConfig 2 2) = 1000"
    by (simp_all add: exConfig_def maxIterationsOf_def)
  have "optimize buyerAndSeller [] equalWeights (exConfig 2 2)
        = \<lparr>r_plan = togetherPlan,
           r_metrics = \<lparr>novelty = 1, diversity = 0, balance = 3 / 4, transaction = 1,
                         weighted = 11 / 16\<rparr>,
           r_explanations = generateExplanations togetherPlan buyerAndSeller
              \<lparr>novelty = 1, diversity = 0, balance = 3 / 4, transaction = 1, weighted = 11 / 16\<rparr> [],
           r_warnings = collectWarnings buyerAndSeller togetherPlan,
           r_feasible = valid (validateConstraints togetherPlan [] buyerAndSeller),
           r_iterations = 2\<rparr>"
    using f example_search
    by (simp add: optimize_def example_initialPlan cfg Let_def)
  then show ?thesis by (simp add: example_codes validateConstraints_def)
qed

subsection \<open>The claims about \<open>optimize\<close>\<close>

text \<open>
  C3. When the guests have pairwise distinct ids, the plan that \<open>optimize\<close> returns lists
  every guest id at most once over all its tables: no id at two tables, none twice at
  one table.
\<close>

theorem optimize_seats_each_guest_once:
  assumes "distinct (map g_id guests)"
  shows "distinct (concat (map guestIds (tables (r_plan (optimize guests constraints weights config)))))"
proof (cases "feasible (checkFeasibility guests constraints (cfg_tableCount config)
                          (cfg_seatsPerTable config))")
  case False
  then show ?thesis by (simp add: optimize_infeasible_plan)
next
  case True
  from steps_inv [OF optimize_feasible(1) [OF True]]
  have "mset (seatedIds (tables (r_plan (optimize guests constraints weights config))))
        = mset (seatedIds (tables (initialPlan guests constraints config)))" by simp
  from mset_eq_imp_distinct_iff [OF this] initialPlan_props(4) [OF assms]
  show ?thesis by (simp add: seatedIds_def)
qed

theorem optimize_seats_each_guest_once_witness:
  "distinct (concat (map guestIds
     (tables (r_plan (optimize buyersAndSellers [] equalWeights (exConfig 2 2))))))"
  using optimize_seats_each_guest_once [of buyersAndSellers "[]" equalWeights "exConfig 2 2"]
  by (simp add: buyersAndSellers_def exGuest_def)

text \<open>
  C4. No table of the plan that \<open>optimize\<close> returns holds more than \<open>seatsPerTable\<close> guest
  ids, for every input. The bound holds after the initial assignment, is kept by the
  repair pass, and is kept by every step the local search can accept.
\<close>

theorem capacity_respected:
  "withinCapacity s (tables (fst (createInitialAssignment guests constraints n s rng)))
   \<and> (withinCapacity s (tables plan) \<longrightarrow>
        withinCapacity s (tables (repairAssignment plan constraints guests n s rng)))
   \<and> (withinCapacity s (tables plan) \<and> acceptedStep constraints guests weights s plan newPlan \<longrightarrow>
        withinCapacity s (tables newPlan))
   \<and> (\<forall>t\<in>set (tables (r_plan (optimize guests constraints weights config))).
        length (guestIds t) \<le> cfg_seatsPerTable config)"
proof (intro conjI impI)
  show "withinCapacity s (tables (fst (createInitialAssignment guests constraints n s rng)))"
    by (rule createInitialAssignment_props(3))
  show "withinCapacity s (tables (repairAssignment plan constraints guests n s rng))"
    if "withinCapacity s (tables plan)"
    using repairAssignment_inv [OF that] by simp
  show "withinCapacity s (tables newPlan)"
    if "withinCapacity s (tables plan) \<and> acceptedStep constraints guests weights s plan newPlan"
    using acceptedStep_inv(4) that by blast
  show "\<forall>t\<in>set (tables (r_plan (optimize guests constraints weights config))).
          length (guestIds t) \<le> cfg_seatsPerTable config"
  proof (cases "feasible (checkFeasibility guests constraints (cfg_tableCount config)
                            (cfg_seatsPerTable config))")
    case False
    then show ?thesis by (simp add: optimize_infeasible_plan)
  next
    case True
    from steps_inv [OF optimize_feasible(1) [OF True]] initialPlan_props(3)
    have "withinCapacity (cfg_seatsPerTable config)
            (tables (r_plan (optimize guests constraints weights config)))" by blast
    then show ?thesis by (simp add: withinCapacity_iff)
  qed
qed

theorem capacity_respected_witness:
  "list_all (\<lambda>t. length (guestIds t) \<le> 2)
     (tables (r_plan (optimize buyerAndSeller [] equalWeights (exConfig 2 2))))
   \<and> withinCapacity 2 (tables (fst (createInitialAssignment buyerAndSeller [] 2 2 42)))
   \<and> withinCapacity 2 (tables (repairAssignment apartPlan [] buyerAndSeller 2 2 42))
   \<and> withinCapacity 2 (tables togetherPlan)"
proof -
  have 1: "withinCapacity 2 (tables apartPlan)"
    by (simp add: withinCapacity_def apartPlan_def exTable_def)
  from capacity_respected [where s = 2 and guests = buyerAndSeller and constraints = "[]"
      and n = 2 and rng = 42 and plan = apartPlan and newPlan = togetherPlan
      and weights = equalWeights and config = "exConfig 2 2"] 1 example_step
  show ?thesis by (simp add: list_all_iff exConfig_def)
qed

text \<open>
  C5, as stated, fails: a must-sit-together group may name an id that no supplied guest
  has, and the builder seats that id. With one guest \<open>a\<close>, one table of one seat and a
  group naming \<open>x\<close>, the input is feasible, \<open>x\<close> takes the seat, and \<open>a\<close> is left out.
\<close>

theorem stranger_takes_the_seat:
  "feasible (checkFeasibility loneGuest strangerGroup 1 1)
   \<and> tables (r_plan (optimize loneGuest strangerGroup equalWeights (exConfig 1 1)))
       = [\<lparr>tableId = ''table_1'', guestIds = [''x'']\<rparr>]"
  by code_simp

text \<open>
  C5, amended. On every input that \<open>checkFeasibility\<close> reports feasible, and whose
  must-sit-together constraints name only ids of supplied guests, every supplied guest
  id is at some table of the plan that \<open>optimize\<close> returns.
\<close>

theorem every_guest_seated:
  assumes "feasible (checkFeasibility guests constraints (cfg_tableCount config)
                       (cfg_seatsPerTable config))"
    and "\<forall>c\<in>set constraints. c_type c = MUST_SIT_TOGETHER \<longrightarrow>
           set (c_guestIds c) \<subseteq> g_id ` set guests"
  shows "g_id ` set guests
         \<subseteq> set (concat (map guestIds (tables (r_plan (optimize guests constraints weights config)))))"
proof -
  from assms(1) have cap: "length guests \<le> cfg_tableCount config * cfg_seatsPerTable config"
    by (simp add: checkFeasibility_def Let_def split: if_splits)
  from steps_inv [OF optimize_feasible(1) [OF assms(1)]]
  have "mset (seatedIds (tables (r_plan (optimize guests constraints weights config))))
        = mset (seatedIds (tables (initialPlan guests constraints config)))" by simp
  from mset_eq_setD [OF this] initialPlan_props(5) [OF cap assms(2)]
  show ?thesis by (simp add: seatedIds_def)
qed

theorem every_guest_seated_witness:
  "set [''b1'', ''b2'', ''s1'', ''s2'']
   \<subseteq> set (concat (map guestIds (tables (r_plan
        (optimize buyersAndSellers [exConstraint ''k'' MUST_SIT_TOGETHER [''b1'', ''s1'']]
           equalWeights (exConfig 2 2))))))"
proof -
  have 1: "feasible (checkFeasibility buyersAndSellers
             [exConstraint ''k'' MUST_SIT_TOGETHER [''b1'', ''s1'']]
             (cfg_tableCount (exConfig 2 2)) (cfg_seatsPerTable (exConfig 2 2)))"
    by (simp add: checkFeasibility_def buyersAndSellers_def exConstraint_def exConfig_def)
  have 2: "\<forall>c\<in>set [exConstraint ''k'' MUST_SIT_TOGETHER [''b1'', ''s1'']].
             c_type c = MUST_SIT_TOGETHER \<longrightarrow> set (c_guestIds c) \<subseteq> g_id ` set buyersAndSellers"
    by (simp add: buyersAndSellers_def exConstraint_def exGuest_def)
  from every_guest_seated [OF 1 2, of equalWeights] show ?thesis
    by (simp add: buyersAndSellers_def exGuest_def)
qed

text \<open>
  C6. On every feasible input the weighted score of the returned plan is at least the
  weighted score of the plan the search starts from (the initial assignment, repaired
  when it did not validate). The returned metrics are those of the returned plan. The
  returned plan is reached from the starting plan by accepted steps only, and an
  accepted step is a swap or a move proposed by the loops that validates and has a
  strictly higher weighted score; so a returned plan that differs from the starting
  plan scores strictly higher.
\<close>

theorem local_search_monotone:
  assumes "feasible (checkFeasibility guests constraints (cfg_tableCount config)
                       (cfg_seatsPerTable config))"
  shows "weighted (calculateAllMetrics (initialPlan guests constraints config) guests weights)
           \<le> weighted (r_metrics (optimize guests constraints weights config))
    \<and> r_metrics (optimize guests constraints weights config)
        = calculateAllMetrics (r_plan (optimize guests constraints weights config)) guests weights
    \<and> (acceptedStep constraints guests weights (cfg_seatsPerTable config))\<^sup>*\<^sup>*
         (initialPlan guests constraints config)
         (r_plan (optimize guests constraints weights config))
    \<and> (\<forall>p p'. acceptedStep constraints guests weights (cfg_seatsPerTable config) p p' \<longrightarrow>
          weighted (calculateAllMetrics p guests weights)
            < weighted (calculateAllMetrics p' guests weights))
    \<and> (r_plan (optimize guests constraints weights config) \<noteq> initialPlan guests constraints config
        \<longrightarrow> weighted (calculateAllMetrics (initialPlan guests constraints config) guests weights)
              < weighted (r_metrics (optimize guests constraints weights config)))"
proof -
  note o = optimize_feasible [OF assms, of weights]
  from steps_inv [OF o(1)] o(2) show ?thesis
    using o(1) by (auto simp: acceptedStep_def)
qed

theorem local_search_monotone_witness:
  "weighted (calculateAllMetrics (initialPlan buyerAndSeller [] (exConfig 2 2))
      buyerAndSeller equalWeights)
   < weighted (r_metrics (optimize buyerAndSeller [] equalWeights (exConfig 2 2)))
   \<and> weighted (calculateAllMetrics (initialPlan buyerAndSeller [] (exConfig 2 2))
      buyerAndSeller equalWeights) = 9 / 20
   \<and> weighted (r_metrics (optimize buyerAndSeller [] equalWeights (exConfig 2 2))) = 11 / 16"
proof -
  have 1: "feasible (checkFeasibility buyerAndSeller []
          (cfg_tableCount (exConfig 2 2)) (cfg_seatsPerTable (exConfig 2 2)))"
    by (simp add: checkFeasibility_def buyerAndSeller_def exConfig_def)
  have 2: "r_plan (optimize buyerAndSeller [] equalWeights (exConfig 2 2))
           \<noteq> initialPlan buyerAndSeller [] (exConfig 2 2)"
    using example_run by (simp add: example_initialPlan togetherPlan_def apartPlan_def exTable_def)
  from local_search_monotone [OF 1, of equalWeights] 2
  have "weighted (calculateAllMetrics (initialPlan buyerAndSeller [] (exConfig 2 2))
          buyerAndSeller equalWeights)
        < weighted (r_metrics (optimize buyerAndSeller [] equalWeights (exConfig 2 2)))"
    by blast
  then show ?thesis
    using example_run by (simp add: example_initialPlan example_initial_metrics)
qed

text \<open>
  \<open>optimize\<close> reads its configuration through four values only: the table count, the
  seats per table, the iteration limit in effect (1000 when none is given) and the seed
  in effect (42 when none is given). Its random source is built from that seed at the
  start of the call and its state is threaded through the initial assignment; the
  embedding has no other input. That two calls with the same arguments return the same
  result is therefore no theorem about the code here: \<open>optimize\<close> is a function, and
  what the source does not read (a clock, \<open>Math.random\<close>, state kept between calls)
  cannot be told apart from what the embedding leaves out.
\<close>

lemma optimize_config:
  assumes "cfg_tableCount config' = cfg_tableCount config"
    and "cfg_seatsPerTable config' = cfg_seatsPerTable config"
    and "maxIterationsOf config' = maxIterationsOf config"
    and "seedOf config' = seedOf config"
  shows "optimize guests constraints weights config' = optimize guests constraints weights config"
proof -
  have "initialPlan guests constraints config' = initialPlan guests constraints config"
    unfolding initialPlan_def assms ..
  then show ?thesis unfolding optimize_def assms by (rule arg_cong)
qed

end
